theory Spec2Isabelle
  imports Main "HOL-Library.Sublist"
begin

section \<open>Texts and character classes\<close>

text \<open>
  The migrator \<^verbatim>\<open>fix_type_checker.py\<close> reads one file into a Python \<^verbatim>\<open>str\<close>, threads it
  through five functions that each apply \<^verbatim>\<open>re.sub\<close> one or more times, and writes the
  result back.  A text is modelled as a \<^typ>\<open>string\<close>; a \<^typ>\<open>char\<close> stands for the code
  point of the same number (U+0000 to U+00FF).  The classes \<^verbatim>\<open>\s\<close> and \<^verbatim>\<open>\w\<close> are the ones
  Python uses for \<^verbatim>\<open>str\<close> patterns, restricted to that range.
\<close>

definition is_space :: "char \<Rightarrow> bool" where
  "is_space c \<longleftrightarrow> (of_char c :: nat) \<in> {9, 10, 11, 12, 13, 28, 29, 30, 31, 32, 133, 160}"

definition is_word :: "char \<Rightarrow> bool" where
  "is_word c \<longleftrightarrow>
     (let n = (of_char c :: nat) in
        (48 \<le> n \<and> n \<le> 57) \<or> (65 \<le> n \<and> n \<le> 90) \<or> n = 95 \<or> (97 \<le> n \<and> n \<le> 122) \<or>
        n \<in> {170, 178, 179, 181, 185, 186, 188, 189, 190} \<or>
        (192 \<le> n \<and> n \<le> 214) \<or> (216 \<le> n \<and> n \<le> 246) \<or> 248 \<le> n)"

definition is_lower_us :: "char \<Rightarrow> bool" where
  \<comment> \<open>the set \<^verbatim>\<open>[a-z_]\<close>\<close>
  "is_lower_us c \<longleftrightarrow> (let n = (of_char c :: nat) in (97 \<le> n \<and> n \<le> 122) \<or> n = 95)"

definition not_comma :: "char \<Rightarrow> bool" where
  \<comment> \<open>the set \<^verbatim>\<open>[^,]\<close>\<close>
  "not_comma c \<longleftrightarrow> c \<noteq> CHR '',''"

section \<open>Regular expressions, matching and \<^verbatim>\<open>re.sub\<close>\<close>

text \<open>
  The fragment of Python's regular expressions that the source uses: literal text, a
  greedy \<^verbatim>\<open>*\<close> or \<^verbatim>\<open>+\<close> over a character class, concatenation, alternation, and numbered
  capturing groups.  Matching is by backtracking with a continuation, in the priority
  order of Python's engine: a greedy repetition first takes one more character and
  gives it back only when the rest of the pattern fails; an alternation tries its left
  branch first.
\<close>

type_synonym caps = "(nat \<times> string) list"

datatype regex =
    Lit string
  | Star "char \<Rightarrow> bool"
  | Plus "char \<Rightarrow> bool"
  | Seq regex regex
  | Alt regex regex
  | Group nat regex

fun rx :: "regex \<Rightarrow> string \<Rightarrow> caps \<Rightarrow> (string \<Rightarrow> caps \<Rightarrow> 'a option) \<Rightarrow> 'a option" where
  "rx (Lit p) s cs k = (if prefix p s then k (drop (length p) s) cs else None)"
| "rx (Star C) [] cs k = k [] cs"
| "rx (Star C) (x # xs) cs k =
     (if C x then (case rx (Star C) xs cs k of Some r \<Rightarrow> Some r | None \<Rightarrow> k (x # xs) cs)
      else k (x # xs) cs)"
| "rx (Plus C) [] cs k = None"
| "rx (Plus C) (x # xs) cs k = (if C x then rx (Star C) xs cs k else None)"
| "rx (Seq a b) s cs k = rx a s cs (\<lambda>s' cs'. rx b s' cs' k)"
| "rx (Alt a b) s cs k = (case rx a s cs k of Some r \<Rightarrow> Some r | None \<Rightarrow> rx b s cs k)"
| "rx (Group n a) s cs k =
     rx a s cs (\<lambda>s' cs'. k s' ((n, take (length s - length s') s) # cs'))"

text \<open>
  A match of the pattern at the start of the text (\<^verbatim>\<open>Pattern.match\<close>): the number of
  characters consumed and the captured groups.
\<close>

definition rx_match :: "regex \<Rightarrow> string \<Rightarrow> (nat \<times> caps) option" where
  "rx_match r s = rx r s [] (\<lambda>s' cs. Some (length s - length s', cs))"

text \<open>
  A replacement template after Python has processed its escapes: literal text and
  group references (\<^verbatim>\<open>\1\<close>, \<^verbatim>\<open>\2\<close>).  A group that took no part in the match expands to
  the empty string.
\<close>

datatype titem = TLit string | TGrp nat

fun expand :: "titem list \<Rightarrow> caps \<Rightarrow> string" where
  "expand [] cs = []"
| "expand (TLit l # t) cs = l @ expand t cs"
| "expand (TGrp n # t) cs = (case map_of cs n of Some v \<Rightarrow> v | None \<Rightarrow> []) @ expand t cs"

text \<open>
  \<^verbatim>\<open>re.sub(pattern, repl, string)\<close>: the text is scanned from the left; at each position
  the pattern is tried; a match is replaced by the expanded template and the scan
  goes on after it; where nothing matches the character is copied.  An empty match is
  replaced and the scan moves on by one character (no pattern of this program matches
  the empty string).
\<close>

fun re_sub :: "regex \<Rightarrow> titem list \<Rightarrow> string \<Rightarrow> string" where
  "re_sub r t [] = (case rx_match r [] of None \<Rightarrow> [] | Some (n, cs) \<Rightarrow> expand t cs)"
| "re_sub r t (x # xs) =
     (case rx_match r (x # xs) of
        None \<Rightarrow> x # re_sub r t xs
      | Some (n, cs) \<Rightarrow>
          if n = 0 then expand t cs @ x # re_sub r t xs
          else expand t cs @ re_sub r t (drop (n - 1) xs))"

text \<open>The first position at which the pattern matches (\<^verbatim>\<open>re.search\<close>), if any.\<close>

fun rx_search :: "regex \<Rightarrow> string \<Rightarrow> nat option" where
  "rx_search r [] = (case rx_match r [] of None \<Rightarrow> None | Some m \<Rightarrow> Some 0)"
| "rx_search r (x # xs) =
     (case rx_match r (x # xs) of
        Some m \<Rightarrow> Some 0
      | None \<Rightarrow> map_option Suc (rx_search r xs))"

section \<open>The five stages and the pipeline\<close>

subsection \<open>\<^verbatim>\<open>add_interner_to_struct\<close>\<close>

definition struct_header :: string where
  "struct_header = ''pub struct TypeChecker {''"

definition struct_header_new :: string where
  "struct_header_new = ''pub struct TypeChecker<'a> {''"

definition struct_anchor :: string where
  "struct_anchor = ''    diagnostic_handler: Arc<dyn DiagnosticHandler>,\<newline>''"

definition struct_fields :: string where
  "struct_fields =
     ''    interner: &'a crate::string_interner::StringInterner,\<newline>    common: &'a crate::string_interner::CommonIdentifiers,\<newline>''"

definition add_interner_to_struct :: "string \<Rightarrow> string" where
  "add_interner_to_struct content =
     (let content = re_sub (Lit struct_header) [TLit struct_header_new] content;
          content = re_sub (Group 1 (Lit struct_anchor)) [TGrp 1, TLit struct_fields] content
      in content)"

subsection \<open>\<^verbatim>\<open>update_constructor\<close>\<close>

definition old_sig :: regex where
  "old_sig = Lit ''pub fn new(diagnostic_handler: Arc<dyn DiagnosticHandler>) -> Self {''"

definition new_sig :: "titem list" where
  "new_sig =
     [TLit ''pub fn new(\<newline>        diagnostic_handler: Arc<dyn DiagnosticHandler>,\<newline>        interner: &'a crate::string_interner::StringInterner,\<newline>        common: &'a crate::string_interner::CommonIdentifiers,\<newline>    ) -> Self {'']"

definition init_rx :: regex where
  "init_rx = Seq (Group 1 (Lit ''            diagnostic_handler,\<newline>'')) (Group 2 (Lit ''        };''))"

definition init_repl :: "titem list" where
  "init_repl = [TGrp 1, TLit ''            interner,\<newline>            common,\<newline>'', TGrp 2]"

definition update_constructor :: "string \<Rightarrow> string" where
  "update_constructor content =
     (let content = re_sub old_sig new_sig content;
          content = re_sub init_rx init_repl content
      in content)"

subsection \<open>\<^verbatim>\<open>fix_lexer_parser_calls\<close>\<close>

definition call_rx :: "string \<Rightarrow> regex" where
  \<comment> \<open>\<^verbatim>\<open>Lexer::new\(([^,]+),\s*handler\.clone\(\)\)\<close>, and the same for \<^verbatim>\<open>Parser::new\<close>\<close>
  "call_rx head =
     Seq (Lit head) (Seq (Group 1 (Plus not_comma))
       (Seq (Lit '','') (Seq (Star is_space) (Lit ''handler.clone())''))))"

definition lexer_rx :: regex where
  "lexer_rx = call_rx ''Lexer::new(''"

definition lexer_repl :: "titem list" where
  "lexer_repl = [TLit ''Lexer::new('', TGrp 1, TLit '', handler.clone(), &self.interner)'']"

definition parser_rx :: regex where
  "parser_rx = call_rx ''Parser::new(''"

definition parser_repl :: "titem list" where
  "parser_repl =
     [TLit ''Parser::new('', TGrp 1, TLit '', handler.clone(), &self.interner, &self.common)'']"

definition fix_lexer_parser_calls :: "string \<Rightarrow> string" where
  "fix_lexer_parser_calls content =
     (let content = re_sub lexer_rx lexer_repl content;
          content = re_sub parser_rx parser_repl content
      in content)"

subsection \<open>\<^verbatim>\<open>fix_stringid_conversions\<close>\<close>

definition node2_rx :: regex where
  \<comment> \<open>Pattern 1: \<^verbatim>\<open>(\w+)\.(\w+)\.node\.clone\(\)\<close>\<close>
  "node2_rx =
     Seq (Group 1 (Plus is_word)) (Seq (Lit ''.'') (Seq (Group 2 (Plus is_word))
       (Lit ''.node.clone()'')))"

definition node2_repl :: "titem list" where
  "node2_repl =
     [TLit ''self.interner.resolve('', TGrp 1, TLit ''.'', TGrp 2, TLit ''.node).to_string()'']"

definition node1_rx :: regex where
  \<comment> \<open>Pattern 2: \<^verbatim>\<open>(\w+)\.node\.clone\(\)\<close>\<close>
  "node1_rx = Seq (Group 1 (Plus is_word)) (Lit ''.node.clone()'')"

definition node1_repl :: "titem list" where
  "node1_repl = [TLit ''self.interner.resolve('', TGrp 1, TLit ''.node).to_string()'']"

definition lookup_rx :: regex where
  \<comment> \<open>Pattern 3: \<^verbatim>\<open>self\.symbol_table\.lookup\(&([a-z_]+\.(?:name|local|key)\.node)\)\<close>\<close>
  "lookup_rx =
     Seq (Lit ''self.symbol_table.lookup(&'')
       (Seq (Group 1 (Seq (Plus is_lower_us) (Seq (Lit ''.'')
               (Seq (Alt (Lit ''name'') (Alt (Lit ''local'') (Lit ''key''))) (Lit ''.node'')))))
          (Lit '')''))"

definition lookup_repl :: "titem list" where
  "lookup_repl = [TLit ''self.symbol_table.lookup(self.interner.resolve('', TGrp 1, TLit ''))'']"

definition fix_stringid_conversions :: "string \<Rightarrow> string" where
  "fix_stringid_conversions content =
     (let content = re_sub node2_rx node2_repl content;
          content = re_sub node1_rx node1_repl content;
          content = re_sub lookup_rx lookup_repl content
      in content)"

subsection \<open>\<^verbatim>\<open>fix_impl_block\<close>\<close>

definition impl_header :: string where
  "impl_header = ''impl TypeChecker {''"

definition impl_header_new :: string where
  "impl_header_new = ''impl<'a> TypeChecker<'a> {''"

definition fix_impl_block :: "string \<Rightarrow> string" where
  "fix_impl_block content = re_sub (Lit impl_header) [TLit impl_header_new] content"

subsection \<open>\<^verbatim>\<open>main\<close>\<close>


section \<open>Auxiliary notions\<close>

text \<open>
  Replacing every occurrence of a non-empty literal, scanning from the left; the literal
  rules of the program are instances of it (lemma \<open>re_sub_literal\<close> below).
\<close>

fun replace_all :: "string \<Rightarrow> string \<Rightarrow> string \<Rightarrow> string" where
  "replace_all l r [] = []"
| "replace_all l r (x # xs) =
     (if prefix l (x # xs) then r @ replace_all l r (drop (length l - 1) xs)
      else x # replace_all l r xs)"

text \<open>Some non-empty suffix of \<open>v\<close> is a prefix of \<open>y\<close>.\<close>

fun overhang :: "string \<Rightarrow> string \<Rightarrow> bool" where
  "overhang [] y = False"
| "overhang (a # v) y = (prefix (a # v) y \<or> overhang v y)"

text \<open>
  A pattern is local when a match is never empty and depends only on the text it
  consumes.  All patterns of the program are local.
\<close>

definition rule_local :: "regex \<Rightarrow> bool" where
  "rule_local r \<longleftrightarrow>
     (\<forall>s n cs. rx_match r s = Some (n, cs) \<longrightarrow>
        0 < n \<and> n \<le> length s \<and> (\<forall>rest. rx_match r (take n s @ rest) = Some (n, cs)))"

text \<open>
  The text \<open>s\<close> has an occurrence of \<open>head\<close> after which no comma follows: a call that is
  still in its first argument where \<open>s\<close> ends.
\<close>

fun open_call :: "string \<Rightarrow> string \<Rightarrow> bool" where
  "open_call head [] = False"
| "open_call head (x # xs) =
     ((prefix head (x # xs) \<and> CHR '','' \<notin> set (x # xs)) \<or> open_call head xs)"

section \<open>Basic facts about matching and substitution\<close>

lemma re_sub_no_match: "rx_search r s = None \<Longrightarrow> re_sub r t s = s"
  by (induction s) (auto split: option.splits)

lemmas pattern_defs =
  struct_header_def struct_anchor_def old_sig_def init_rx_def lexer_rx_def parser_rx_def
  call_rx_def node2_rx_def node1_rx_def lookup_rx_def impl_header_def

lemmas class_defs = is_space_def is_word_def is_lower_us_def not_comma_def

subsection \<open>Greedy repetitions that cannot give back\<close>

lemma rx_Star_det:
  assumes "\<And>x xs cs. C x \<Longrightarrow> k (x # xs) cs = None"
  shows "rx (Star C) s cs k = k (dropWhile C s) cs"
proof (induction s)
  case Nil
  show ?case by simp
next
  case (Cons x xs)
  show ?case
  proof (cases "C x")
    case True
    show ?thesis
    proof (cases "k (dropWhile C xs) cs")
      case None
      then show ?thesis using True Cons assms by simp
    next
      case (Some r)
      then show ?thesis using True Cons by simp
    qed
  next
    case False
    then show ?thesis by simp
  qed
qed

lemma rx_Plus_det:
  assumes "\<And>x xs cs. C x \<Longrightarrow> k (x # xs) cs = None"
  shows "rx (Plus C) s cs k = (if takeWhile C s = [] then None else k (dropWhile C s) cs)"
proof (cases s)
  case Nil
  then show ?thesis by simp
next
  case (Cons x xs)
  then show ?thesis using rx_Star_det [of C k xs cs, OF assms] by simp
qed

lemma length_sub_dropWhile: "take (length s - length (dropWhile C s)) s = takeWhile C s"
proof -
  have "length s - length (dropWhile C s) = length (takeWhile C s)"
    by (metis add_diff_cancel_right' length_append takeWhile_dropWhile_id)
  then show ?thesis using takeWhile_eq_take [of C s] by simp
qed

lemma rx_match_Lit:
  "rx_match (Lit p) s = (if prefix p s then Some (length p, []) else None)"
  by (auto simp: rx_match_def prefix_def)

lemma rx_match_Group_Lit:
  "rx_match (Group n (Lit p)) s = (if prefix p s then Some (length p, [(n, p)]) else None)"
  by (auto simp: rx_match_def prefix_def)

lemma rx_match_init:
  "rx_match (Seq (Group 1 (Lit a)) (Group 2 (Lit b))) s =
     (if prefix (a @ b) s then Some (length a + length b, [(2, b), (1, a)]) else None)"
  by (auto simp: rx_match_def prefix_def)

subsection \<open>Literal patterns\<close>

lemma re_sub_literal:
  assumes m: "\<And>s. rx_match rr s = (if prefix l s then Some (length l, cs0) else None)"
    and l: "l \<noteq> []"
  shows "re_sub rr t s = replace_all l (expand t cs0) s"
proof (induction s rule: length_induct)
  case (1 s)
  show ?case
  proof (cases s)
    case Nil
    then show ?thesis using m l by simp
  next
    case (Cons x xs)
    show ?thesis
    proof (cases "prefix l s")
      case True
      have "re_sub rr t (drop (length l - 1) xs) =
              replace_all l (expand t cs0) (drop (length l - 1) xs)"
        using 1 Cons by simp
      then show ?thesis using True m l Cons by simp
    next
      case False
      have "re_sub rr t xs = replace_all l (expand t cs0) xs"
        using 1 Cons by simp
      then show ?thesis using False m Cons by simp
    qed
  qed
qed

lemma replace_all_hit: "l \<noteq> [] \<Longrightarrow> replace_all l r (l @ y) = r @ replace_all l r y"
  by (cases l) auto

lemma replace_all_skip:
  assumes "\<And>u. u \<noteq> [] \<Longrightarrow> suffix u x \<Longrightarrow> \<not> prefix l (u @ y)"
  shows "replace_all l r (x @ y) = x @ replace_all l r y"
  using assms
proof (induction x)
  case Nil
  then show ?case by simp
next
  case (Cons a x)
  have "\<not> prefix l ((a # x) @ y)" using Cons.prems [of "a # x"] by simp
  moreover have "replace_all l r (x @ y) = x @ replace_all l r y"
    using Cons.prems by (intro Cons.IH) (auto simp: suffix_Cons)
  ultimately show ?case by simp
qed

lemma replace_all_split:
  assumes l: "l \<noteq> []"
    and "\<And>u. u \<noteq> [] \<Longrightarrow> suffix u x \<Longrightarrow> prefix l (u @ y) \<Longrightarrow> prefix l u"
  shows "replace_all l r (x @ y) = replace_all l r x @ replace_all l r y"
  using assms(2)
proof (induction x rule: length_induct)
  case (1 x)
  show ?case
  proof (cases x)
    case Nil
    then show ?thesis by simp
  next
    case (Cons a xs)
    show ?thesis
    proof (cases "prefix l x")
      case True
      then obtain z where z: "x = l @ z" by (auto simp: prefix_def)
      have "suffix z x" using z by (simp add: suffix_def)
      then have "replace_all l r (z @ y) = replace_all l r z @ replace_all l r y"
        using 1 z l by (auto intro: suffix_order.trans)
      then show ?thesis using z l replace_all_hit [of l r] by simp
    next
      case False
      then have nf: "\<not> prefix l (x @ y)" using 1(2) [of x] Cons by auto
      have "replace_all l r (xs @ y) = replace_all l r xs @ replace_all l r y"
        using 1 Cons by (auto simp: suffix_Cons)
      then show ?thesis using False nf Cons by simp
    qed
  qed
qed

lemma prefix_overhang:
  assumes "prefix l (u @ y)" "\<not> prefix l u"
  shows "overhang (drop (length u) l) y"
proof -
  from assms obtain v where v: "l = u @ v" "prefix v y" "v \<noteq> []"
    by (metis append_Nil2 prefix_append prefix_order.order_refl prefix_prefix prefixE)
  then show ?thesis by (cases v) auto
qed

lemma overhang_drop: "overhang (drop n v) y \<Longrightarrow> overhang v y"
proof (induction v arbitrary: n)
  case Nil
  then show ?case by simp
next
  case (Cons a v)
  then show ?case by (cases n) auto
qed

lemma replace_all_split_overhang:
  assumes l: "l \<noteq> []" and o: "\<not> overhang (tl l) y"
  shows "replace_all l r (x @ y) = replace_all l r x @ replace_all l r y"
proof (rule replace_all_split [OF l])
  fix u :: string
  assume u: "u \<noteq> []" and p: "prefix l (u @ y)"
  show "prefix l u"
  proof (rule ccontr)
    assume "\<not> prefix l u"
    then have "overhang (drop (length u) l) y" using p prefix_overhang by blast
    moreover have "drop (length u) l = drop (length u - 1) (tl l)"
      using u by (cases u; cases l) auto
    ultimately show False using o overhang_drop by metis
  qed
qed

lemma replace_all_split_char:
  assumes l: "l \<noteq> []" and c: "c \<notin> set l"
  shows "replace_all l r (x @ c # y) = replace_all l r x @ c # replace_all l r y"
proof -
  have "\<not> overhang v (c # y)" if "set v \<subseteq> set l" for v
    using that c by (induction v) auto
  then have "\<not> overhang (tl l) (c # y)" using l by (metis list.set_sel(2) subsetI)
  then have "replace_all l r (x @ c # y) = replace_all l r x @ replace_all l r (c # y)"
    using l replace_all_split_overhang by blast
  moreover have "\<not> prefix l (c # y)" using l c by (cases l) auto
  ultimately show ?thesis by simp
qed

lemma replace_all_split_last:
  assumes l: "l \<noteq> []" and x: "x \<noteq> []" and c: "last x \<notin> set l"
  shows "replace_all l r (x @ y) = replace_all l r x @ replace_all l r y"
proof -
  have x': "x = butlast x @ [last x]" using x by simp
  have "replace_all l r (butlast x @ last x # y) =
          replace_all l r (butlast x) @ last x # replace_all l r y"
    using l c by (rule replace_all_split_char)
  moreover have "replace_all l r (butlast x @ last x # []) =
          replace_all l r (butlast x) @ last x # replace_all l r []"
    using l c by (rule replace_all_split_char)
  ultimately show ?thesis using x' by (metis append.assoc append_Cons append_Nil  replace_all.simps(1))
qed

lemma replace_all_skip_nohd:
  assumes l: "l \<noteq> []" and h: "hd l \<notin> set x"
  shows "replace_all l r (x @ y) = x @ replace_all l r y"
proof (rule replace_all_skip)
  fix u :: string
  assume "u \<noteq> []" "suffix u x"
  then have "hd u \<in> set x" by (metis hd_in_set set_mono_suffix subsetD)
  then show "\<not> prefix l (u @ y)" using h l \<open>u \<noteq> []\<close> by (cases l; cases u) auto
qed

lemma replace_all_free:
  assumes "c \<in> set l" "c \<notin> set x"
  shows "replace_all l r x = x"
  using assms(2)
proof (induction x)
  case Nil
  then show ?case by simp
next
  case (Cons a x)
  have "\<not> prefix l (a # x)" using assms(1) Cons.prems set_mono_prefix by fastforce
  then show ?case using Cons by simp
qed

lemma replace_all_no_occurrence: "\<not> sublist l s \<Longrightarrow> replace_all l r s = s"
  by (induction s) (auto simp: sublist_Cons_right)

subsection \<open>What the call patterns match\<close>

lemma rx_Group_Plus_det:
  assumes "\<And>x xs cs'. C x \<Longrightarrow> k (x # xs) cs' = None"
  shows "rx (Group n (Plus C)) s cs k =
     (if takeWhile C s = [] then None else k (dropWhile C s) ((n, takeWhile C s) # cs))"
proof -
  define k' where "k' = (\<lambda>s' cs'. k s' ((n, take (length s - length s') s) # cs'))"
  have "rx (Group n (Plus C)) s cs k = rx (Plus C) s cs k'"
    by (simp add: k'_def)
  also have "\<dots> = (if takeWhile C s = [] then None else k' (dropWhile C s) cs)"
    by (rule rx_Plus_det) (simp add: k'_def assms)
  finally show ?thesis by (simp add: k'_def length_sub_dropWhile)
qed

lemma takeWhile_stop:
  assumes "\<forall>c\<in>set g. P c" "y = [] \<or> \<not> P (hd y)"
  shows "takeWhile P (g @ y) = g" "dropWhile P (g @ y) = y"
  using assms by (induction g) (auto simp: takeWhile_eq_Nil_iff dropWhile_eq_self_iff)

lemma split_takeWhile:
  obtains g y where "s = g @ y" "\<forall>c\<in>set g. P c" "y = [] \<or> \<not> P (hd y)"
    "g = takeWhile P s" "y = dropWhile P s"
  by (metis (full_types) hd_dropWhile set_takeWhileD takeWhile_dropWhile_id)

lemma consumed_length: "length (m @ rest) - length rest = length m"
  by simp

lemma rx_match_call_iff:
  "rx_match (call_rx head) s = Some (n, cs) \<longleftrightarrow>
     (\<exists>g ws rest. s = head @ g @ '','' @ ws @ ''handler.clone())'' @ rest \<and>
        g \<noteq> [] \<and> (\<forall>c\<in>set g. not_comma c) \<and> (\<forall>c\<in>set ws. is_space c) \<and>
        n = length (head @ g @ '','' @ ws @ ''handler.clone())'') \<and> cs = [(1, g)])"
  (is "?L \<longleftrightarrow> ?R")
proof -
  define k0 :: "string \<Rightarrow> caps \<Rightarrow> (nat \<times> caps) option"
    where "k0 = (\<lambda>s' cs. Some (length s - length s', cs))"
  define tl_rx where "tl_rx = Seq (Lit '','') (Seq (Star is_space) (Lit ''handler.clone())''))"
  have tail: "rx (Seq (Star is_space) (Lit ''handler.clone())'')) z cs' k0 =
      rx (Lit ''handler.clone())'') (dropWhile is_space z) cs' k0" for z cs'
  proof -
    have "rx (Star is_space) z cs' (\<lambda>s' cs'. rx (Lit ''handler.clone())'') s' cs' k0) =
          rx (Lit ''handler.clone())'') (dropWhile is_space z) cs' k0"
      by (rule rx_Star_det) (auto simp: is_space_def)
    then show ?thesis by simp
  qed
  have fail: "rx tl_rx (x # xs) cs' k0 = None" if "not_comma x" for x xs cs'
    using that by (simp add: tl_rx_def not_comma_def)
  have grp: "rx (Seq (Group 1 (Plus not_comma)) tl_rx) z [] k0 =
      (if takeWhile not_comma z = [] then None
       else rx tl_rx (dropWhile not_comma z) [(1, takeWhile not_comma z)] k0)" for z
  proof -
    have "rx (Group 1 (Plus not_comma)) z [] (\<lambda>s' cs'. rx tl_rx s' cs' k0) =
      (if takeWhile not_comma z = [] then None
       else rx tl_rx (dropWhile not_comma z) [(1, takeWhile not_comma z)] k0)"
      by (rule rx_Group_Plus_det) (rule fail)
    then show ?thesis by simp
  qed
  have m: "rx_match (call_rx head) s =
      (if prefix head s then rx (Seq (Group 1 (Plus not_comma)) tl_rx) (drop (length head) s) [] k0
       else None)"
    unfolding rx_match_def call_rx_def tl_rx_def k0_def by (simp only: rx.simps)
  show ?thesis
  proof
    assume L: ?L
    then have ph: "prefix head s" using m by (auto split: if_splits)
    then obtain s1 where s1: "s = head @ s1" by (auto simp: prefix_def)
    have d1: "drop (length head) s = s1" using s1 by simp
    define g where "g = takeWhile not_comma s1"
    define y where "y = dropWhile not_comma s1"
    have gy: "s1 = g @ y" "\<forall>c\<in>set g. not_comma c"
      by (auto simp: g_def y_def dest: set_takeWhileD)
    have "rx (Seq (Group 1 (Plus not_comma)) tl_rx) s1 [] k0 = Some (n, cs)"
      using L m ph d1 by simp
    then have "(if g = [] then None else rx tl_rx y [(1, g)] k0) = Some (n, cs)"
      unfolding grp g_def y_def .
    then have g: "g \<noteq> []" and 1: "rx tl_rx y [(1, g)] k0 = Some (n, cs)"
      by (auto split: if_splits)
    from 1 obtain s3 where y: "y = '','' @ s3"
      and 2: "rx (Seq (Star is_space) (Lit ''handler.clone())'')) s3 [(1, g)] k0 = Some (n, cs)"
      by (auto simp: tl_rx_def prefix_def split: if_splits)
    define ws where "ws = takeWhile is_space s3"
    define z where "z = dropWhile is_space s3"
    have wz: "s3 = ws @ z" "\<forall>c\<in>set ws. is_space c"
      by (auto simp: ws_def z_def dest: set_takeWhileD)
    have "rx (Lit ''handler.clone())'') z [(1, g)] k0 = Some (n, cs)"
      using 2 unfolding tail z_def .
    then obtain rest where z: "z = ''handler.clone())'' @ rest"
      and 3: "k0 rest [(1, g)] = Some (n, cs)"
      by (auto simp: prefix_def split: if_splits)
    have eq: "s = head @ g @ '','' @ ws @ ''handler.clone())'' @ rest"
      using s1 gy y wz z by simp
    have "n = length s - length rest" "cs = [(1, g)]" using 3 by (auto simp: k0_def)
    then have "n = length (head @ g @ '','' @ ws @ ''handler.clone())'')" "cs = [(1, g)]"
      using eq by simp_all
    then show ?R using eq g gy(2) wz(2) by blast
  next
    assume ?R
    then obtain g ws rest where eq: "s = head @ g @ '','' @ ws @ ''handler.clone())'' @ rest"
      and g: "g \<noteq> []" "\<forall>c\<in>set g. not_comma c" and ws: "\<forall>c\<in>set ws. is_space c"
      and n: "n = length (head @ g @ '','' @ ws @ ''handler.clone())'')" and cs: "cs = [(1, g)]"
      by blast
    have ph: "prefix head s" and d: "drop (length head) s = g @ '','' @ ws @ ''handler.clone())'' @ rest"
      using eq by simp_all
    have tw: "takeWhile not_comma (g @ '','' @ ws @ ''handler.clone())'' @ rest) = g"
      "dropWhile not_comma (g @ '','' @ ws @ ''handler.clone())'' @ rest) =
         '','' @ ws @ ''handler.clone())'' @ rest"
      using g by (auto intro!: takeWhile_stop simp: not_comma_def)
    have dw: "dropWhile is_space (ws @ ''handler.clone())'' @ rest) = ''handler.clone())'' @ rest"
      using ws by (auto intro!: takeWhile_stop simp: is_space_def)
    have "rx (Seq (Star is_space) (Lit ''handler.clone())'')) (ws @ ''handler.clone())'' @ rest) [(1, g)] k0
        = k0 rest [(1, g)]"
      unfolding tail dw by simp
    then have "rx tl_rx ('','' @ ws @ ''handler.clone())'' @ rest) [(1, g)] k0 = k0 rest [(1, g)]"
      by (simp add: tl_rx_def)
    then have "rx_match (call_rx head) s = k0 rest [(1, g)]"
      using m ph d grp [of "g @ '','' @ ws @ ''handler.clone())'' @ rest"] tw g by simp
    also have "\<dots> = Some (n, cs)"
      using eq n cs by (simp add: k0_def)
    finally show ?L .
  qed
qed

subsection \<open>What the identifier patterns match\<close>

lemma not_word_dot: "\<not> is_word CHR ''.''"
  by (simp add: is_word_def)

lemma rx_Seq_Lit:
  "rx (Seq (Lit p) r) s cs k = (if prefix p s then rx r (drop (length p) s) cs k else None)"
  by simp

lemma rx_match_node1_iff:
  "rx_match node1_rx s = Some (n, cs) \<longleftrightarrow>
     (\<exists>X rest. s = X @ ''.node.clone()'' @ rest \<and> X \<noteq> [] \<and> (\<forall>c\<in>set X. is_word c) \<and>
        n = length (X @ ''.node.clone()'') \<and> cs = [(1, X)])"
  (is "?L \<longleftrightarrow> ?R")
proof -
  define k0 :: "string \<Rightarrow> caps \<Rightarrow> (nat \<times> caps) option"
    where "k0 = (\<lambda>s' cs. Some (length s - length s', cs))"
  have grp: "rx_match node1_rx s =
      (if takeWhile is_word s = [] then None
       else rx (Lit ''.node.clone()'') (dropWhile is_word s) [(1, takeWhile is_word s)] k0)"
  proof -
    have "rx (Group 1 (Plus is_word)) s [] (\<lambda>s' cs'. rx (Lit ''.node.clone()'') s' cs' k0) =
      (if takeWhile is_word s = [] then None
       else rx (Lit ''.node.clone()'') (dropWhile is_word s) [(1, takeWhile is_word s)] k0)"
      by (rule rx_Group_Plus_det) (auto simp: not_word_dot)
    then show ?thesis
      unfolding rx_match_def node1_rx_def k0_def by (simp only: rx.simps)
  qed
  show ?thesis
  proof
    assume L: ?L
    define X where "X = takeWhile is_word s"
    define y where "y = dropWhile is_word s"
    have Xy: "s = X @ y" "\<forall>c\<in>set X. is_word c"
      by (auto simp: X_def y_def dest: set_takeWhileD)
    have "(if X = [] then None else rx (Lit ''.node.clone()'') y [(1, X)] k0) = Some (n, cs)"
      using L unfolding grp X_def y_def .
    then have X: "X \<noteq> []" and 1: "rx (Lit ''.node.clone()'') y [(1, X)] k0 = Some (n, cs)"
      by (auto split: if_splits)
    from 1 obtain rest where y: "y = ''.node.clone()'' @ rest"
      and 3: "k0 rest [(1, X)] = Some (n, cs)"
      by (auto simp: prefix_def split: if_splits)
    have eq: "s = X @ ''.node.clone()'' @ rest" using Xy y by simp
    have "n = length s - length rest" "cs = [(1, X)]" using 3 by (auto simp: k0_def)
    then have "n = length (X @ ''.node.clone()'')" "cs = [(1, X)]"
      using eq by simp_all
    then show ?R using eq X Xy(2) by blast
  next
    assume ?R
    then obtain X rest where eq: "s = X @ ''.node.clone()'' @ rest"
      and X: "X \<noteq> []" "\<forall>c\<in>set X. is_word c"
      and n: "n = length (X @ ''.node.clone()'')" and cs: "cs = [(1, X)]"
      by blast
    have tw: "takeWhile is_word s = X" "dropWhile is_word s = ''.node.clone()'' @ rest"
      unfolding eq using X by (auto intro!: takeWhile_stop simp: not_word_dot)
    have "rx_match node1_rx s = k0 rest [(1, X)]"
      unfolding grp tw using X by simp
    also have "\<dots> = Some (n, cs)"
      using eq n cs by (simp add: k0_def)
    finally show ?L .
  qed
qed

lemma rx_match_node2_iff:
  "rx_match node2_rx s = Some (n, cs) \<longleftrightarrow>
     (\<exists>X Y rest. s = X @ ''.'' @ Y @ ''.node.clone()'' @ rest \<and>
        X \<noteq> [] \<and> (\<forall>c\<in>set X. is_word c) \<and> Y \<noteq> [] \<and> (\<forall>c\<in>set Y. is_word c) \<and>
        n = length (X @ ''.'' @ Y @ ''.node.clone()'') \<and> cs = [(2, Y), (1, X)])"
  (is "?L \<longleftrightarrow> ?R")
proof -
  define k0 :: "string \<Rightarrow> caps \<Rightarrow> (nat \<times> caps) option"
    where "k0 = (\<lambda>s' cs. Some (length s - length s', cs))"
  define tl_rx where "tl_rx = Seq (Lit ''.'') (Seq (Group 2 (Plus is_word)) (Lit ''.node.clone()''))"
  have grp2: "rx (Seq (Group 2 (Plus is_word)) (Lit ''.node.clone()'')) z cs' k0 =
      (if takeWhile is_word z = [] then None
       else rx (Lit ''.node.clone()'') (dropWhile is_word z) ((2, takeWhile is_word z) # cs') k0)"
    for z cs'
  proof -
    have "rx (Group 2 (Plus is_word)) z cs' (\<lambda>s' cs'. rx (Lit ''.node.clone()'') s' cs' k0) =
      (if takeWhile is_word z = [] then None
       else rx (Lit ''.node.clone()'') (dropWhile is_word z) ((2, takeWhile is_word z) # cs') k0)"
      by (rule rx_Group_Plus_det) (auto simp: not_word_dot)
    then show ?thesis by (simp only: rx.simps)
  qed
  have fail: "rx tl_rx (x # xs) cs' k0 = None" if "is_word x" for x xs cs'
    using that by (auto simp: tl_rx_def not_word_dot)
  have grp: "rx_match node2_rx s =
      (if takeWhile is_word s = [] then None
       else rx tl_rx (dropWhile is_word s) [(1, takeWhile is_word s)] k0)"
  proof -
    have "rx (Group 1 (Plus is_word)) s [] (\<lambda>s' cs'. rx tl_rx s' cs' k0) =
      (if takeWhile is_word s = [] then None
       else rx tl_rx (dropWhile is_word s) [(1, takeWhile is_word s)] k0)"
      by (rule rx_Group_Plus_det) (rule fail)
    then show ?thesis
      unfolding rx_match_def node2_rx_def k0_def tl_rx_def by (simp only: rx.simps)
  qed
  show ?thesis
  proof
    assume L: ?L
    define X where "X = takeWhile is_word s"
    define y where "y = dropWhile is_word s"
    have Xy: "s = X @ y" "\<forall>c\<in>set X. is_word c"
      by (auto simp: X_def y_def dest: set_takeWhileD)
    have "(if X = [] then None else rx tl_rx y [(1, X)] k0) = Some (n, cs)"
      using L unfolding grp X_def y_def .
    then have X: "X \<noteq> []" and 1: "rx tl_rx y [(1, X)] k0 = Some (n, cs)"
      by (auto split: if_splits)
    from 1 have "(if prefix ''.'' y
        then rx (Seq (Group 2 (Plus is_word)) (Lit ''.node.clone()'')) (drop (length ''.'') y)
               [(1, X)] k0
        else None) = Some (n, cs)"
      unfolding tl_rx_def rx_Seq_Lit .
    then obtain y2 where y: "y = ''.'' @ y2"
      and 2: "rx (Seq (Group 2 (Plus is_word)) (Lit ''.node.clone()'')) y2 [(1, X)] k0 = Some (n, cs)"
      by (auto simp del: rx.simps simp: prefix_def split: if_splits)
    define Y where "Y = takeWhile is_word y2"
    define z where "z = dropWhile is_word y2"
    have Yz: "y2 = Y @ z" "\<forall>c\<in>set Y. is_word c"
      by (auto simp: Y_def z_def dest: set_takeWhileD)
    have "(if Y = [] then None else rx (Lit ''.node.clone()'') z [(2, Y), (1, X)] k0) = Some (n, cs)"
      using 2 unfolding grp2 Y_def z_def .
    then have Y: "Y \<noteq> []" and 3: "rx (Lit ''.node.clone()'') z [(2, Y), (1, X)] k0 = Some (n, cs)"
      by (auto split: if_splits)
    from 3 obtain rest where z: "z = ''.node.clone()'' @ rest"
      and 4: "k0 rest [(2, Y), (1, X)] = Some (n, cs)"
      by (auto simp: prefix_def split: if_splits)
    have eq: "s = X @ ''.'' @ Y @ ''.node.clone()'' @ rest" using Xy y Yz z by simp
    have "n = length s - length rest" "cs = [(2, Y), (1, X)]" using 4 by (auto simp: k0_def)
    then have "n = length (X @ ''.'' @ Y @ ''.node.clone()'')" "cs = [(2, Y), (1, X)]"
      using eq by simp_all
    then show ?R using eq X Y Xy(2) Yz(2) by blast
  next
    assume ?R
    then obtain X Y rest where eq: "s = X @ ''.'' @ Y @ ''.node.clone()'' @ rest"
      and X: "X \<noteq> []" "\<forall>c\<in>set X. is_word c" and Y: "Y \<noteq> []" "\<forall>c\<in>set Y. is_word c"
      and n: "n = length (X @ ''.'' @ Y @ ''.node.clone()'')" and cs: "cs = [(2, Y), (1, X)]"
      by blast
    have tw: "takeWhile is_word s = X" "dropWhile is_word s = ''.'' @ Y @ ''.node.clone()'' @ rest"
      unfolding eq using X by (auto intro!: takeWhile_stop simp: not_word_dot)
    have tw2: "takeWhile is_word (Y @ ''.node.clone()'' @ rest) = Y"
      "dropWhile is_word (Y @ ''.node.clone()'' @ rest) = ''.node.clone()'' @ rest"
      using Y by (auto intro!: takeWhile_stop simp: not_word_dot)
    have "rx (Seq (Group 2 (Plus is_word)) (Lit ''.node.clone()'')) (Y @ ''.node.clone()'' @ rest)
            [(1, X)] k0 = k0 rest [(2, Y), (1, X)]"
      unfolding grp2 tw2 using Y by simp
    then have "rx tl_rx (''.'' @ Y @ ''.node.clone()'' @ rest) [(1, X)] k0 = k0 rest [(2, Y), (1, X)]"
      unfolding tl_rx_def rx_Seq_Lit by (simp del: rx.simps)
    then have "rx_match node2_rx s = k0 rest [(2, Y), (1, X)]"
      unfolding grp tw using X by simp
    also have "\<dots> = Some (n, cs)"
      using eq n cs by (simp add: k0_def)
    finally show ?L .
  qed
qed

subsection \<open>What the lookup pattern matches\<close>

lemma take_consumed: "take (length (m @ z) - length z) (m @ z) = m"
  by simp

lemma rx_field_alt:
  "rx (Seq (Alt (Lit ''name'') (Alt (Lit ''local'') (Lit ''key''))) (Lit ''.node'')) y cs k = Some v
   \<longleftrightarrow> (\<exists>f z. y = f @ ''.node'' @ z \<and> f \<in> {''name'', ''local'', ''key''} \<and> k z cs = Some v)"
  (is "?L \<longleftrightarrow> ?R")
proof
  assume ?L
  then consider z where "y = ''name'' @ ''.node'' @ z" "k z cs = Some v"
    | z where "y = ''local'' @ ''.node'' @ z" "k z cs = Some v"
    | z where "y = ''key'' @ ''.node'' @ z" "k z cs = Some v"
    by (auto simp: prefix_def split: option.splits if_splits)
  then show ?R
    by cases blast+
next
  assume ?R
  then obtain f z where y: "y = f @ ''.node'' @ z" and f: "f \<in> {''name'', ''local'', ''key''}"
    and k: "k z cs = Some v" by blast
  from f consider "f = ''name''" | "f = ''local''" | "f = ''key''" by blast
  then show ?L
    by cases (simp_all add: y k)
qed

lemma rx_match_lookup_iff:
  "rx_match lookup_rx s = Some (n, cs) \<longleftrightarrow>
     (\<exists>Z f rest. s = ''self.symbol_table.lookup(&'' @ Z @ ''.'' @ f @ ''.node)'' @ rest \<and>
        Z \<noteq> [] \<and> (\<forall>c\<in>set Z. is_lower_us c) \<and> f \<in> {''name'', ''local'', ''key''} \<and>
        n = length (''self.symbol_table.lookup(&'' @ Z @ ''.'' @ f @ ''.node)'') \<and>
        cs = [(1, Z @ ''.'' @ f @ ''.node'')])"
  (is "?L \<longleftrightarrow> ?R")
proof -
  define k0 :: "string \<Rightarrow> caps \<Rightarrow> (nat \<times> caps) option"
    where "k0 = (\<lambda>s' cs. Some (length s - length s', cs))"
  define k1 :: "string \<Rightarrow> string \<Rightarrow> caps \<Rightarrow> (nat \<times> caps) option"
    where "k1 = (\<lambda>z s' cs'. rx (Lit '')'') s' ((1, take (length z - length s') z) # cs') k0)"
  define fld where
    "fld = Seq (Alt (Lit ''name'') (Alt (Lit ''local'') (Lit ''key''))) (Lit ''.node'')"
  define G2 where "G2 = Seq (Lit ''.'') fld"
  have m: "rx_match lookup_rx s =
      (if prefix ''self.symbol_table.lookup(&'' s
       then rx (Seq (Plus is_lower_us) G2) (drop (length ''self.symbol_table.lookup(&'') s) []
              (k1 (drop (length ''self.symbol_table.lookup(&'') s))
       else None)"
    unfolding rx_match_def lookup_rx_def k0_def k1_def G2_def fld_def by (simp only: rx.simps)
  have fail: "rx G2 (x # xs) cs' k = None" if "is_lower_us x" for x xs cs'
    and k :: "string \<Rightarrow> caps \<Rightarrow> (nat \<times> caps) option"
    using that unfolding G2_def rx_Seq_Lit by (auto simp: is_lower_us_def)
  have plus: "rx (Seq (Plus is_lower_us) G2) z [] k =
      (if takeWhile is_lower_us z = [] then None else rx G2 (dropWhile is_lower_us z) [] k)"
    for z and k :: "string \<Rightarrow> caps \<Rightarrow> (nat \<times> caps) option"
  proof -
    have "rx (Plus is_lower_us) z [] (\<lambda>s' cs'. rx G2 s' cs' k) =
      (if takeWhile is_lower_us z = [] then None else rx G2 (dropWhile is_lower_us z) [] k)"
      by (rule rx_Plus_det) (rule fail)
    then show ?thesis by (simp only: rx.simps)
  qed
  show ?thesis
  proof
    assume L: ?L
    then have ph: "prefix ''self.symbol_table.lookup(&'' s" using m by (auto split: if_splits)
    then obtain s1 where s1: "s = ''self.symbol_table.lookup(&'' @ s1" by (auto simp: prefix_def)
    have d1: "drop (length ''self.symbol_table.lookup(&'') s = s1" using s1 by simp
    define Z where "Z = takeWhile is_lower_us s1"
    define y where "y = dropWhile is_lower_us s1"
    have Zy: "s1 = Z @ y" "\<forall>c\<in>set Z. is_lower_us c"
      by (auto simp: Z_def y_def dest: set_takeWhileD)
    have "rx (Seq (Plus is_lower_us) G2) s1 [] (k1 s1) = Some (n, cs)"
      using L m ph unfolding d1 by simp
    then have "(if Z = [] then None else rx G2 y [] (k1 s1)) = Some (n, cs)"
      unfolding plus Z_def y_def .
    then have Z: "Z \<noteq> []" and 1: "rx G2 y [] (k1 s1) = Some (n, cs)"
      by (auto split: if_splits)
    from 1 have "(if prefix ''.'' y then rx fld (drop (length ''.'') y) [] (k1 s1) else None)
        = Some (n, cs)"
      unfolding G2_def rx_Seq_Lit .
    then obtain y2 where y: "y = ''.'' @ y2" and 2: "rx fld y2 [] (k1 s1) = Some (n, cs)"
      by (auto simp del: rx.simps simp: prefix_def split: if_splits)
    from 2 obtain f z where y2: "y2 = f @ ''.node'' @ z" and f: "f \<in> {''name'', ''local'', ''key''}"
      and 3: "k1 s1 z [] = Some (n, cs)"
      unfolding fld_def rx_field_alt by blast
    from 3 obtain rest where z: "z = '')'' @ rest"
      and 4: "k0 rest [(1, take (length s1 - length z) s1)] = Some (n, cs)"
      by (auto simp: k1_def prefix_def split: if_splits)
    have s1': "s1 = (Z @ ''.'' @ f @ ''.node'') @ z" using Zy y y2 by simp
    have tk: "take (length s1 - length z) s1 = Z @ ''.'' @ f @ ''.node''"
      unfolding s1' by (rule take_consumed)
    have eq: "s = ''self.symbol_table.lookup(&'' @ Z @ ''.'' @ f @ ''.node)'' @ rest"
      using s1 s1' z by simp
    have "n = length s - length rest" "cs = [(1, Z @ ''.'' @ f @ ''.node'')]"
      using 4 unfolding tk by (auto simp: k0_def)
    then have "n = length (''self.symbol_table.lookup(&'' @ Z @ ''.'' @ f @ ''.node)'')"
      "cs = [(1, Z @ ''.'' @ f @ ''.node'')]"
      using eq by simp_all
    then show ?R using eq Z Zy(2) f by blast
  next
    assume ?R
    then obtain Z f rest
      where eq: "s = ''self.symbol_table.lookup(&'' @ Z @ ''.'' @ f @ ''.node)'' @ rest"
      and Z: "Z \<noteq> []" "\<forall>c\<in>set Z. is_lower_us c" and f: "f \<in> {''name'', ''local'', ''key''}"
      and n: "n = length (''self.symbol_table.lookup(&'' @ Z @ ''.'' @ f @ ''.node)'')"
      and cs: "cs = [(1, Z @ ''.'' @ f @ ''.node'')]"
      by blast
    define s1 where "s1 = Z @ ''.'' @ f @ ''.node)'' @ rest"
    have ph: "prefix ''self.symbol_table.lookup(&'' s"
      and d: "drop (length ''self.symbol_table.lookup(&'') s = s1"
      using eq by (simp_all add: s1_def)
    have tw: "takeWhile is_lower_us s1 = Z"
      "dropWhile is_lower_us s1 = ''.'' @ f @ ''.node)'' @ rest"
      unfolding s1_def using Z by (auto intro!: takeWhile_stop simp: is_lower_us_def)
    have s1': "s1 = (Z @ ''.'' @ f @ ''.node'') @ '')'' @ rest" by (simp add: s1_def)
    have tk: "take (length s1 - length ('')'' @ rest)) s1 = Z @ ''.'' @ f @ ''.node''"
      unfolding s1' by (rule take_consumed)
    have "k1 s1 ('')'' @ rest) [] = k0 rest [(1, Z @ ''.'' @ f @ ''.node'')]"
      unfolding k1_def tk by simp
    then have "rx fld (f @ ''.node'' @ '')'' @ rest) [] (k1 s1) = k0 rest [(1, Z @ ''.'' @ f @ ''.node'')]"
      unfolding fld_def using f rx_field_alt
      by (metis (no_types, lifting) k0_def)
    then have "rx G2 (''.'' @ f @ ''.node)'' @ rest) [] (k1 s1) = k0 rest [(1, Z @ ''.'' @ f @ ''.node'')]"
      unfolding G2_def rx_Seq_Lit by (simp del: rx.simps)
    then have "rx_match lookup_rx s = k0 rest [(1, Z @ ''.'' @ f @ ''.node'')]"
      unfolding m d plus tw using ph Z by simp
    also have "\<dots> = Some (n, cs)"
      using eq n cs by (simp add: k0_def)
    finally show ?L .
  qed
qed

subsection \<open>Scanning with a local pattern\<close>

lemma re_sub_hit:
  assumes "rx_match r (m @ rest) = Some (length m, cs)" "m \<noteq> []"
  shows "re_sub r t (m @ rest) = expand t cs @ re_sub r t rest"
  using assms by (cases m) auto

lemma re_sub_skip:
  assumes "\<And>u. u \<noteq> [] \<Longrightarrow> suffix u x \<Longrightarrow> rx_match r (u @ y) = None"
  shows "re_sub r t (x @ y) = x @ re_sub r t y"
  using assms
proof (induction x)
  case Nil
  then show ?case by simp
next
  case (Cons a x)
  have "rx_match r ((a # x) @ y) = None" using Cons.prems [of "a # x"] by simp
  moreover have "re_sub r t (x @ y) = x @ re_sub r t y"
    using Cons.prems by (intro Cons.IH) (auto simp: suffix_Cons)
  ultimately show ?case by simp
qed

lemma rx_search_None_iff:
  "rx_search r s = None \<longleftrightarrow> (\<forall>u. suffix u s \<longrightarrow> rx_match r u = None)"
  by (induction s) (auto simp: suffix_Cons split: option.splits)

lemma rule_local_Nil: "rule_local r \<Longrightarrow> rx_match r [] = None"
proof (rule ccontr)
  assume loc: "rule_local r" and "rx_match r [] \<noteq> None"
  then obtain n cs where "rx_match r [] = Some (n, cs)" by auto
  then have "0 < n \<and> n \<le> length ([] :: string)" using loc unfolding rule_local_def by blast
  then show False by auto
qed

lemma rule_local_append:
  assumes "rule_local r" "rx_match r u = Some (n, cs)"
  shows "rx_match r (u @ y) = Some (n, cs)"
proof -
  from assms have "n \<le> length u" "rx_match r (take n u @ (drop n u @ y)) = Some (n, cs)"
    unfolding rule_local_def by blast+
  then show ?thesis by (simp only: append_assoc [symmetric] append_take_drop_id)
qed

lemma rule_local_prefix:
  assumes "rule_local r" "rx_match r (u @ y) = Some (n, cs)" "n \<le> length u"
  shows "rx_match r u = Some (n, cs)"
proof -
  from assms have "rx_match r (take n (u @ y) @ drop n u) = Some (n, cs)"
    unfolding rule_local_def by blast
  then show ?thesis using assms(3) by simp
qed

lemma re_sub_step:
  assumes "rule_local r" "rx_match r s = Some (n, cs)"
  shows "re_sub r t s = expand t cs @ re_sub r t (drop n s)"
proof -
  from assms have n: "0 < n" "n \<le> length s" unfolding rule_local_def by blast+
  then obtain x xs where s: "s = x # xs" by (cases s) auto
  have "drop (n - 1) xs = drop n s" using n s by (cases n) auto
  then show ?thesis using assms(2) n s by simp
qed

lemma re_sub_split:
  assumes loc: "rule_local r"
    and ns: "\<And>u n cs. u \<noteq> [] \<Longrightarrow> suffix u x \<Longrightarrow> rx_match r (u @ y) = Some (n, cs) \<Longrightarrow> n \<le> length u"
  shows "re_sub r t (x @ y) = re_sub r t x @ re_sub r t y"
  using ns
proof (induction x rule: length_induct)
  case (1 x)
  show ?case
  proof (cases x)
    case Nil
    then show ?thesis using rule_local_Nil [OF loc] by simp
  next
    case (Cons a xs)
    show ?thesis
    proof (cases "rx_match r (x @ y)")
      case None
      then have "rx_match r x = None"
        using rule_local_append [OF loc] by (cases "rx_match r x") auto
      moreover have "re_sub r t (xs @ y) = re_sub r t xs @ re_sub r t y"
        using 1 Cons by (auto simp: suffix_Cons)
      ultimately show ?thesis using None Cons by simp
    next
      case (Some p)
      obtain n cs where p: "p = (n, cs)" by (cases p)
      have le: "n \<le> length x" using 1(2) [of x n cs] Some p Cons by simp
      have mx: "rx_match r x = Some (n, cs)"
        using rule_local_prefix [OF loc _ le] Some p by simp
      have n0: "0 < n" using loc mx unfolding rule_local_def by blast
      have sd: "suffix (drop n x) x" by (rule suffix_drop)
      have "length (drop n x) < length x" using n0 Cons by simp
      moreover have "\<And>u n' cs'. u \<noteq> [] \<Longrightarrow> suffix u (drop n x) \<Longrightarrow>
          rx_match r (u @ y) = Some (n', cs') \<Longrightarrow> n' \<le> length u"
        using 1(2) sd suffix_order.trans by blast
      ultimately have "re_sub r t (drop n x @ y) = re_sub r t (drop n x) @ re_sub r t y"
        using 1(1) by blast
      moreover have "re_sub r t (x @ y) = expand t cs @ re_sub r t (drop n (x @ y))"
        using re_sub_step [OF loc] Some p by simp
      moreover have "re_sub r t x = expand t cs @ re_sub r t (drop n x)"
        using re_sub_step [OF loc mx] .
      ultimately show ?thesis using le by simp
    qed
  qed
qed

lemma take_length_append: "s = m @ rest \<Longrightarrow> n = length m \<Longrightarrow> take n s = m"
  by simp

lemma call_local: "rule_local (call_rx head)"
  unfolding rule_local_def
proof (intro allI impI)
  fix s n cs
  assume "rx_match (call_rx head) s = Some (n, cs)"
  then obtain g ws rest where s: "s = head @ g @ '','' @ ws @ ''handler.clone())'' @ rest"
    and g: "g \<noteq> []" "\<forall>c\<in>set g. not_comma c" and ws: "\<forall>c\<in>set ws. is_space c"
    and n: "n = length (head @ g @ '','' @ ws @ ''handler.clone())'')" and cs: "cs = [(1, g)]"
    unfolding rx_match_call_iff by blast
  have tk: "take n s = head @ g @ '','' @ ws @ ''handler.clone())''"
    using s n by (intro take_length_append) simp_all
  have "rx_match (call_rx head) (take n s @ rest') = Some (n, cs)" for rest'
    unfolding rx_match_call_iff tk using g ws n cs by auto
  then show "0 < n \<and> n \<le> length s \<and> (\<forall>rest. rx_match (call_rx head) (take n s @ rest) = Some (n, cs))"
    using n s by simp
qed

lemma node2_local: "rule_local node2_rx"
  unfolding rule_local_def
proof (intro allI impI)
  fix s n cs
  assume "rx_match node2_rx s = Some (n, cs)"
  then obtain X Y rest where s: "s = X @ ''.'' @ Y @ ''.node.clone()'' @ rest"
    and X: "X \<noteq> []" "\<forall>c\<in>set X. is_word c" and Y: "Y \<noteq> []" "\<forall>c\<in>set Y. is_word c"
    and n: "n = length (X @ ''.'' @ Y @ ''.node.clone()'')" and cs: "cs = [(2, Y), (1, X)]"
    unfolding rx_match_node2_iff by blast
  have tk: "take n s = X @ ''.'' @ Y @ ''.node.clone()''"
    using s n by (intro take_length_append) simp_all
  have "rx_match node2_rx (take n s @ rest') = Some (n, cs)" for rest'
    unfolding rx_match_node2_iff tk using X Y n cs by auto
  then show "0 < n \<and> n \<le> length s \<and> (\<forall>rest. rx_match node2_rx (take n s @ rest) = Some (n, cs))"
    using n s by simp
qed

lemma node1_local: "rule_local node1_rx"
  unfolding rule_local_def
proof (intro allI impI)
  fix s n cs
  assume "rx_match node1_rx s = Some (n, cs)"
  then obtain X rest where s: "s = X @ ''.node.clone()'' @ rest"
    and X: "X \<noteq> []" "\<forall>c\<in>set X. is_word c"
    and n: "n = length (X @ ''.node.clone()'')" and cs: "cs = [(1, X)]"
    unfolding rx_match_node1_iff by blast
  have tk: "take n s = X @ ''.node.clone()''"
    using s n by (intro take_length_append) simp_all
  have "rx_match node1_rx (take n s @ rest') = Some (n, cs)" for rest'
    unfolding rx_match_node1_iff tk using X n cs by auto
  then show "0 < n \<and> n \<le> length s \<and> (\<forall>rest. rx_match node1_rx (take n s @ rest) = Some (n, cs))"
    using n s by simp
qed

lemma lookup_local: "rule_local lookup_rx"
  unfolding rule_local_def
proof (intro allI impI)
  fix s n cs
  assume "rx_match lookup_rx s = Some (n, cs)"
  then obtain Z f rest
    where s: "s = ''self.symbol_table.lookup(&'' @ Z @ ''.'' @ f @ ''.node)'' @ rest"
    and Z: "Z \<noteq> []" "\<forall>c\<in>set Z. is_lower_us c" and f: "f \<in> {''name'', ''local'', ''key''}"
    and n: "n = length (''self.symbol_table.lookup(&'' @ Z @ ''.'' @ f @ ''.node)'')"
    and cs: "cs = [(1, Z @ ''.'' @ f @ ''.node'')]"
    unfolding rx_match_lookup_iff by blast
  have tk: "take n s = ''self.symbol_table.lookup(&'' @ Z @ ''.'' @ f @ ''.node)''"
    using s n by (intro take_length_append) simp_all
  have "rx_match lookup_rx (take n s @ rest') = Some (n, cs)" for rest'
    unfolding rx_match_lookup_iff tk using Z f n cs by auto
  then show "0 < n \<and> n \<le> length s \<and> (\<forall>rest. rx_match lookup_rx (take n s @ rest) = Some (n, cs))"
    using n s by simp
qed

subsection \<open>Occurrences of a delimiter, texts without the literals\<close>

lemma re_sub_miss:
  "rx_match r (x # xs) = None \<Longrightarrow> re_sub r t (x # xs) = x # re_sub r t xs"
  by simp

lemma unique_occurrence:
  assumes "c \<notin> set a" "c \<notin> set b" "a @ c # b = a' @ c # b'"
  shows "a = a' \<and> b = b'"
  using assms
  by (auto simp: append_eq_append_conv2 append_eq_Cons_conv Cons_eq_append_conv)

lemma first_occurrence:
  assumes "c \<notin> set a" "c \<notin> set a'" "a @ c # b = a' @ c # b'"
  shows "a = a' \<and> b = b'"
  using assms
  by (auto simp: append_eq_append_conv2 append_eq_Cons_conv Cons_eq_append_conv)

lemma last_occurrence:
  assumes "c \<notin> set b" "c \<notin> set b'" "a @ c # b = a' @ c # b'"
  shows "a = a' \<and> b = b'"
proof -
  have "rev b @ c # rev a = rev b' @ c # rev a'"
    using arg_cong [OF assms(3), of rev] by simp
  then have "rev b = rev b' \<and> rev a = rev a'"
    using assms(1,2) first_occurrence [of c "rev b" "rev b'" "rev a" "rev a'"] by simp
  then show ?thesis by simp
qed

lemma no_prefix_delim:
  assumes "c1 \<in> set p" "c1 \<notin> set a" "c2 \<notin> set p"
  shows "\<not> prefix p (a @ c2 # b)"
proof
  assume "prefix p (a @ c2 # b)"
  then consider "prefix p a" | us where "p = a @ us" "prefix us (c2 # b)" "us \<noteq> []"
    unfolding prefix_append by (metis append_Nil2 prefix_order.order_refl)
  then show False
  proof cases
    case 1
    then show False using assms(1,2) set_mono_prefix by fastforce
  next
    case 2
    then have "c2 \<in> set p" by (cases us) auto
    then show False using assms(3) by simp
  qed
qed

lemma no_prefix_delim2:
  assumes "c1 \<notin> set a" "c2 \<notin> set p1" "c1 \<noteq> c2"
  shows "\<not> prefix (p1 @ c1 # p2) (a @ c2 # b)"
proof
  assume "prefix (p1 @ c1 # p2) (a @ c2 # b)"
  then obtain z where "a @ c2 # b = p1 @ c1 # p2 @ z" by (auto simp: prefix_def)
  then show False
    using assms
    by (auto simp: append_eq_append_conv2 append_eq_Cons_conv Cons_eq_append_conv)
qed

lemma node2_match_literal:
  assumes "rx_match node2_rx s = Some (n, cs)"
  shows "sublist ''.node.clone()'' s"
proof -
  from assms obtain X Y rest where "s = X @ ''.'' @ Y @ ''.node.clone()'' @ rest"
    unfolding rx_match_node2_iff by blast
  then have "s = (X @ ''.'' @ Y) @ ''.node.clone()'' @ rest" by simp
  then show ?thesis unfolding sublist_def by blast
qed

lemma node1_match_literal:
  assumes "rx_match node1_rx s = Some (n, cs)"
  shows "sublist ''.node.clone()'' s"
proof -
  from assms obtain X rest where "s = X @ ''.node.clone()'' @ rest"
    unfolding rx_match_node1_iff by blast
  then show ?thesis unfolding sublist_def by blast
qed

lemma lookup_match_prefix:
  assumes "rx_match lookup_rx s = Some (n, cs)"
  shows "prefix ''self.symbol_table.lookup(&'' s"
  using assms unfolding rx_match_lookup_iff by auto

lemma sublist_suffix: "sublist p u \<Longrightarrow> suffix u s \<Longrightarrow> sublist p s"
  by (meson sublist_order.order_trans suffix_imp_sublist)

lemma node_subs_without_literal:
  assumes "\<not> sublist ''.node.clone()'' s"
  shows "rx_search node2_rx s = None" "rx_search node1_rx s = None"
proof -
  have "rx_match node2_rx u = None" if "suffix u s" for u
  proof (cases "rx_match node2_rx u")
    case (Some p)
    then have "sublist ''.node.clone()'' u"
      using node2_match_literal by (cases p) auto
    then show ?thesis using assms that sublist_suffix by blast
  qed simp
  then show "rx_search node2_rx s = None" unfolding rx_search_None_iff by blast
  have "rx_match node1_rx u = None" if "suffix u s" for u
  proof (cases "rx_match node1_rx u")
    case (Some p)
    then have "sublist ''.node.clone()'' u"
      using node1_match_literal by (cases p) auto
    then show ?thesis using assms that sublist_suffix by blast
  qed simp
  then show "rx_search node1_rx s = None" unfolding rx_search_None_iff by blast
qed

lemma lookup_sub_without_literal:
  assumes "\<not> sublist ''self.symbol_table.lookup(&'' s"
  shows "rx_search lookup_rx s = None"
proof -
  have "rx_match lookup_rx u = None" if "suffix u s" for u
  proof (cases "rx_match lookup_rx u")
    case (Some p)
    then have "prefix ''self.symbol_table.lookup(&'' u"
      using lookup_match_prefix by (cases p) auto
    then have "sublist ''self.symbol_table.lookup(&'' s"
      using that sublist_suffix prefix_imp_sublist by blast
    then show ?thesis using assms by simp
  qed simp
  then show ?thesis unfolding rx_search_None_iff by blast
qed

lemma sublist_set: "sublist p s \<Longrightarrow> set p \<subseteq> set s"
  by (auto simp: sublist_def)

lemma stringid_without_paren:
  assumes "CHR ''('' \<notin> set s"
  shows "re_sub node2_rx t s = s" "re_sub node1_rx t s = s" "re_sub lookup_rx t s = s"
proof -
  have 1: "\<not> sublist ''.node.clone()'' s" using assms sublist_set by fastforce
  have 2: "\<not> sublist ''self.symbol_table.lookup(&'' s" using assms sublist_set by fastforce
  show "re_sub node2_rx t s = s" "re_sub node1_rx t s = s" "re_sub lookup_rx t s = s"
    using 1 2 by (simp_all add: re_sub_no_match node_subs_without_literal lookup_sub_without_literal)
qed

subsection \<open>The identifier patterns around a chain and around their replacement\<close>

lemma node1_None:
  assumes "takeWhile is_word s = [] \<or> \<not> prefix ''.node.clone()'' (dropWhile is_word s)"
  shows "rx_match node1_rx s = None"
proof (rule ccontr)
  assume "rx_match node1_rx s \<noteq> None"
  then obtain n cs where "rx_match node1_rx s = Some (n, cs)" by auto
  then obtain X rest where s: "s = X @ ''.node.clone()'' @ rest"
    and X: "X \<noteq> []" "\<forall>c\<in>set X. is_word c"
    unfolding rx_match_node1_iff by blast
  have "takeWhile is_word s = X" "dropWhile is_word s = ''.node.clone()'' @ rest"
    unfolding s using X by (auto intro!: takeWhile_stop simp: not_word_dot)
  then show False using assms X by simp
qed

lemma node2_None:
  assumes "takeWhile is_word s = [] \<or> \<not> prefix ''.'' (dropWhile is_word s)"
  shows "rx_match node2_rx s = None"
proof (rule ccontr)
  assume "rx_match node2_rx s \<noteq> None"
  then obtain n cs where "rx_match node2_rx s = Some (n, cs)" by auto
  then obtain X Y rest where s: "s = X @ ''.'' @ Y @ ''.node.clone()'' @ rest"
    and X: "X \<noteq> []" "\<forall>c\<in>set X. is_word c"
    unfolding rx_match_node2_iff by blast
  have "takeWhile is_word s = X" "dropWhile is_word s = ''.'' @ Y @ ''.node.clone()'' @ rest"
    unfolding s using X by (auto intro!: takeWhile_stop simp: not_word_dot)
  then show False using assms X by simp
qed

lemma lookup_None:
  "\<not> prefix ''self.symbol_table.lookup(&'' s \<Longrightarrow> rx_match lookup_rx s = None"
  using lookup_match_prefix by (cases "rx_match lookup_rx s") auto

lemma call_None: "\<not> prefix head s \<Longrightarrow> rx_match (call_rx head) s = None"
proof (rule ccontr)
  assume np: "\<not> prefix head s" and "rx_match (call_rx head) s \<noteq> None"
  then obtain n cs where "rx_match (call_rx head) s = Some (n, cs)" by auto
  then show False using np unfolding rx_match_call_iff by auto
qed

lemma node1_skip_word:
  assumes w: "\<forall>c\<in>set w. is_word c" and y: "y = [] \<or> \<not> is_word (hd y)"
    and np: "\<not> prefix ''.node.clone()'' y"
  shows "re_sub node1_rx t (w @ y) = w @ re_sub node1_rx t y"
proof (rule re_sub_skip)
  fix u :: string
  assume "u \<noteq> []" "suffix u w"
  then have "\<forall>c\<in>set u. is_word c" using w set_mono_suffix by blast
  then have "dropWhile is_word (u @ y) = y" using y by (intro takeWhile_stop) auto
  then show "rx_match node1_rx (u @ y) = None" using np by (intro node1_None) simp
qed

lemma words_no_paren: "\<forall>c\<in>set w. is_word c \<Longrightarrow> CHR ''('' \<notin> set w \<and> CHR '')'' \<notin> set w \<and> CHR ''.'' \<notin> set w"
  by (auto simp: is_word_def)

lemma node1_skip_replacement:
  assumes X: "\<forall>c\<in>set X. is_word c" and Y: "\<forall>c\<in>set Y. is_word c"
  shows "re_sub node1_rx t (''self.interner.resolve('' @ X @ ''.'' @ Y @ ''.node).to_string()'' @ z)
     = ''self.interner.resolve('' @ X @ ''.'' @ Y @ ''.node).to_string()'' @ re_sub node1_rx t z"
proof -
  have 1: "re_sub node1_rx t (''self.interner.resolve('' @ r) = ''self.interner.resolve('' @ re_sub node1_rx t r"
    for r
    by (simp add: re_sub_miss node1_None is_word_def del: re_sub.simps)
  have np: "\<not> prefix ''.node.clone()'' (''.'' @ Y @ ''.node).to_string()'' @ z)"
  proof -
    have "\<not> prefix (''.node.clone'' @ CHR ''('' # '')'') ((''.'' @ Y @ ''.node'') @ CHR '')'' # (''.to_string()'' @ z))"
      using words_no_paren [OF Y] by (intro no_prefix_delim2) auto
    then show ?thesis by simp
  qed
  have 2: "re_sub node1_rx t (X @ ''.'' @ Y @ ''.node).to_string()'' @ z) =
      X @ re_sub node1_rx t (''.'' @ Y @ ''.node).to_string()'' @ z)"
    using X np by (intro node1_skip_word) (auto simp: not_word_dot)
  have 3: "re_sub node1_rx t (''.'' @ r) = ''.'' @ re_sub node1_rx t r" for r
    by (simp add: re_sub_miss node1_None is_word_def del: re_sub.simps)
  have 4: "re_sub node1_rx t (Y @ ''.node).to_string()'' @ z) =
      Y @ re_sub node1_rx t (''.node).to_string()'' @ z)"
    using Y by (intro node1_skip_word) (auto simp: not_word_dot)
  have 5: "re_sub node1_rx t (''.node).to_string()'' @ z) = ''.node).to_string()'' @ re_sub node1_rx t z"
    by (simp add: re_sub_miss node1_None is_word_def del: re_sub.simps)
  show ?thesis unfolding 1 2 3 4 5 by simp
qed

lemma lookup_skip_replacement:
  assumes X: "\<forall>c\<in>set X. is_word c" and Y: "\<forall>c\<in>set Y. is_word c"
  shows "re_sub lookup_rx t (''self.interner.resolve('' @ X @ ''.'' @ Y @ ''.node).to_string()'' @ z)
     = ''self.interner.resolve('' @ X @ ''.'' @ Y @ ''.node).to_string()'' @ re_sub lookup_rx t z"
proof -
  have 1: "re_sub lookup_rx t (''self.interner.resolve('' @ r) = ''self.interner.resolve('' @ re_sub lookup_rx t r"
    for r
    by (simp add: re_sub_miss lookup_None del: re_sub.simps)
  have 2: "re_sub lookup_rx t ((X @ ''.'' @ Y @ ''.node'') @ CHR '')'' # r) =
      (X @ ''.'' @ Y @ ''.node'') @ re_sub lookup_rx t (CHR '')'' # r)" for r
  proof (rule re_sub_skip)
    fix u :: string
    assume "u \<noteq> []" "suffix u (X @ ''.'' @ Y @ ''.node'')"
    then have "set u \<subseteq> set (X @ ''.'' @ Y @ ''.node'')" using set_mono_suffix by blast
    then have "CHR ''('' \<notin> set u" using words_no_paren [OF X] words_no_paren [OF Y] by auto
    then have "\<not> prefix ''self.symbol_table.lookup(&'' (u @ CHR '')'' # r)"
      by (intro no_prefix_delim [of "CHR ''(''"]) auto
    then show "rx_match lookup_rx (u @ CHR '')'' # r) = None" by (rule lookup_None)
  qed
  have 3: "re_sub lookup_rx t ('').to_string()'' @ z) = '').to_string()'' @ re_sub lookup_rx t z"
    by (simp add: re_sub_miss lookup_None del: re_sub.simps)
  have "re_sub lookup_rx t (''self.interner.resolve('' @ (X @ ''.'' @ Y @ ''.node'') @ CHR '')'' # ''.to_string()'' @ z)
     = ''self.interner.resolve('' @ (X @ ''.'' @ Y @ ''.node'') @ '').to_string()'' @ re_sub lookup_rx t z"
    unfolding 1 2 using 3 by simp
  then show ?thesis by simp
qed

lemma straddle_split:
  assumes "u @ y = m @ rest" "length u < length m"
  obtains w where "u @ w = m" "w @ rest = y" "w \<noteq> []"
proof
  have *: "u = take (length u) m" "y = drop (length u) m @ rest"
    using assms by (simp_all add: append_eq_append_conv_if)
  show "u @ drop (length u) m = m" using *(1) append_take_drop_id by metis
  show "drop (length u) m @ rest = y" using *(2) by simp
  show "drop (length u) m \<noteq> []" using assms(2) by simp
qed

lemma append_eq_cases:
  assumes "w @ rest = p @ z"
  obtains t where "w @ t = p" | t where "w = p @ t"
  using assms by (auto simp: append_eq_append_conv2)

lemma no_straddle_resolve:
  assumes eq: "u @ ''self.interner.resolve('' @ z = (a @ CHR ''('' # b) @ rest"
    and a: "CHR ''('' \<notin> set a" "take 2 (rev a) \<noteq> ''ev''"
    and b: "CHR ''('' \<notin> set b" "b \<noteq> []" "last b = CHR '')''"
  shows "length (a @ CHR ''('' # b) \<le> length u"
proof (rule ccontr)
  assume "\<not> length (a @ CHR ''('' # b) \<le> length u"
  then have "length u < length (a @ CHR ''('' # b)" by simp
  then obtain w where w: "u @ w = a @ CHR ''('' # b" "w @ rest = ''self.interner.resolve('' @ z"
    "w \<noteq> []"
    by (rule straddle_split [OF eq])
  have "last (u @ w) = last w" using w(3) by simp
  moreover have "last (a @ CHR ''('' # b) = last b" using b(2) by simp
  ultimately have lw: "last w = CHR '')''" using w(1) b(3) by simp
  have lws: "last w \<in> set w" using w(3) by (rule last_in_set)
  from w(2) consider t2 where "w @ t2 = ''self.interner.resolve(''"
    | t2 where "w = ''self.interner.resolve('' @ t2"
    by (rule append_eq_cases)
  then show False
  proof cases
    case 1
    have "CHR '')'' \<in> set (w @ t2)" using lw lws by simp
    then have "CHR '')'' \<in> set ''self.interner.resolve(''" unfolding 1 .
    then show False by simp
  next
    case 2
    have e: "a @ CHR ''('' # b = (u @ ''self.interner.resolve'') @ CHR ''('' # t2"
      using w(1) unfolding 2 by simp
    have "a = u @ ''self.interner.resolve''"
      using append_Cons_eq_iff [OF a(1) b(1), of "u @ ''self.interner.resolve''" t2] e by simp
    then show False using a(2) by simp
  qed
qed

lemma node1_no_straddle_resolve:
  assumes "rx_match node1_rx (u @ ''self.interner.resolve('' @ z) = Some (n, cs)"
  shows "n \<le> length u"
proof -
  from assms obtain X rest where eq: "u @ ''self.interner.resolve('' @ z = X @ ''.node.clone()'' @ rest"
    and X: "\<forall>c\<in>set X. is_word c" and n: "n = length (X @ ''.node.clone()'')"
    unfolding rx_match_node1_iff by blast
  have e: "u @ ''self.interner.resolve('' @ z = ((X @ ''.node.clone'') @ CHR ''('' # '')'') @ rest"
    using eq by simp
  have 1: "CHR ''('' \<notin> set (X @ ''.node.clone'')" using words_no_paren [OF X] by simp
  have 2: "take 2 (rev (X @ ''.node.clone'')) \<noteq> ''ev''" by simp
  have "length ((X @ ''.node.clone'') @ CHR ''('' # '')'') \<le> length u"
    by (rule no_straddle_resolve [OF e 1 2]) simp_all
  then show ?thesis using n by simp
qed

lemma lookup_no_straddle_resolve:
  assumes "rx_match lookup_rx (u @ ''self.interner.resolve('' @ z) = Some (n, cs)"
  shows "n \<le> length u"
proof -
  from assms obtain Z f rest
    where eq: "u @ ''self.interner.resolve('' @ z =
        ''self.symbol_table.lookup(&'' @ Z @ ''.'' @ f @ ''.node)'' @ rest"
    and Z: "\<forall>c\<in>set Z. is_lower_us c" and f: "f \<in> {''name'', ''local'', ''key''}"
    and n: "n = length (''self.symbol_table.lookup(&'' @ Z @ ''.'' @ f @ ''.node)'')"
    unfolding rx_match_lookup_iff by blast
  have Zp: "CHR ''('' \<notin> set Z" using Z by (auto simp: is_lower_us_def)
  have e: "u @ ''self.interner.resolve('' @ z =
      (''self.symbol_table.lookup'' @ CHR ''('' # (''&'' @ Z @ ''.'' @ f @ ''.node)'')) @ rest"
    using eq by simp
  have 1: "CHR ''('' \<notin> set ''self.symbol_table.lookup''" by simp
  have 2: "take 2 (rev ''self.symbol_table.lookup'') \<noteq> ''ev''" by simp
  have 3: "CHR ''('' \<notin> set (''&'' @ Z @ ''.'' @ f @ ''.node)'')" using Zp f by auto
  have "length (''self.symbol_table.lookup'' @ CHR ''('' # (''&'' @ Z @ ''.'' @ f @ ''.node)'')) \<le> length u"
    by (rule no_straddle_resolve [OF e 1 2 3]) simp_all
  then show ?thesis using n by simp
qed

lemma node2_no_straddle:
  assumes m: "rx_match node2_rx (u @ y) = Some (n, cs)"
    and u: "u \<noteq> []" "\<not> is_word (last u)" "last u \<noteq> CHR ''.''"
    and y: "y \<noteq> []" "is_word (hd y)"
  shows "n \<le> length u"
proof (rule ccontr)
  assume nle: "\<not> n \<le> length u"
  from m obtain X Y rest where eq: "u @ y = X @ ''.'' @ Y @ ''.node.clone()'' @ rest"
    and X: "\<forall>c\<in>set X. is_word c" and Y: "\<forall>c\<in>set Y. is_word c"
    and n: "n = length (X @ ''.'' @ Y @ ''.node.clone()'')"
    unfolding rx_match_node2_iff by blast
  define K where "K = X @ ''.'' @ Y @ ''.node.clone''"
  have K: "\<forall>c\<in>set K. is_word c \<or> c = CHR ''.''"
    using X Y by (auto simp: K_def is_word_def)
  have eq': "u @ y = K @ ''()'' @ rest" and n': "n = length K + 2"
    using eq n by (simp_all add: K_def)
  have lu: "last u \<notin> set K" using K u by auto
  from eq' consider t where "u @ t = K" | t where "u = K @ t" "t @ y = ''()'' @ rest"
    by (auto simp: append_eq_append_conv2)
  then show False
  proof cases
    case 1
    then have "last u \<in> set K" using u(1) by (metis last_in_set set_append Un_iff)
    then show False using lu by simp
  next
    case 2
    have "length t < 2" using nle n' 2(1) by simp
    then consider "t = []" | a where "t = [a]"
      by (cases t; cases "tl t") auto
    then show False
    proof cases
      case 1
      then show False using 2(1) lu u(1) last_in_set by fastforce
    next
      case 2
      then have "hd y = CHR '')''" using \<open>t @ y = ''()'' @ rest\<close> y(1) by (cases y) auto
      then show False using y(2) by (simp add: is_word_def)
    qed
  qed
qed

lemma node2_no_match_in_chain:
  assumes u: "u \<noteq> []" "\<forall>c\<in>set u. is_word c \<or> c = CHR ''.''" "last u = CHR ''.''"
    and X: "\<forall>c\<in>set X. is_word c" and Y: "\<forall>c\<in>set Y. is_word c"
  shows "rx_match node2_rx (u @ X @ ''.'' @ Y @ ''.node.clone()'' @ post) = None"
proof (rule ccontr)
  assume "rx_match node2_rx (u @ X @ ''.'' @ Y @ ''.node.clone()'' @ post) \<noteq> None"
  then obtain n cs
    where "rx_match node2_rx (u @ X @ ''.'' @ Y @ ''.node.clone()'' @ post) = Some (n, cs)"
    by auto
  then obtain X' Y' rest'
    where eq: "u @ X @ ''.'' @ Y @ ''.node.clone()'' @ post = X' @ ''.'' @ Y' @ ''.node.clone()'' @ rest'"
    and X': "\<forall>c\<in>set X'. is_word c" and Y': "\<forall>c\<in>set Y'. is_word c"
    unfolding rx_match_node2_iff by blast
  have up: "CHR ''('' \<notin> set u" using u(2) by (auto simp: is_word_def)
  have e1: "(u @ X @ ''.'' @ Y @ ''.node.clone'') @ CHR ''('' # ('')'' @ post) =
        (X' @ ''.'' @ Y' @ ''.node.clone'') @ CHR ''('' # ('')'' @ rest')"
    using eq by simp
  have n1: "CHR ''('' \<notin> set (u @ X @ ''.'' @ Y @ ''.node.clone'')"
    using up words_no_paren [OF X] words_no_paren [OF Y] by simp
  have n2: "CHR ''('' \<notin> set (X' @ ''.'' @ Y' @ ''.node.clone'')"
    using words_no_paren [OF X'] words_no_paren [OF Y'] by simp
  have "u @ X @ ''.'' @ Y @ ''.node.clone'' = X' @ ''.'' @ Y' @ ''.node.clone''"
    using first_occurrence [OF n1 n2 e1] by blast
  then have e2: "(u @ X) @ CHR ''.'' # Y = X' @ CHR ''.'' # Y'" by simp
  have "u @ X = X'"
    using last_occurrence [OF _ _ e2] words_no_paren [OF Y] words_no_paren [OF Y'] by blast
  then have "last u \<in> set X'" using u(1) by (metis last_in_set set_append Un_iff)
  then show False using u(3) words_no_paren [OF X'] by simp
qed

subsection \<open>The identifier patterns after a left context\<close>

lemma node2_no_straddle_dot:
  assumes m: "rx_match node2_rx (u @ y) = Some (n, cs)"
    and u: "u \<noteq> []" "\<not> is_word (last u)" "last u \<noteq> CHR ''.''"
    and y: "y = [] \<or> hd y \<noteq> CHR '')''"
  shows "n \<le> length u"
proof (rule ccontr)
  assume nle: "\<not> n \<le> length u"
  from m obtain X Y rest where eq: "u @ y = X @ ''.'' @ Y @ ''.node.clone()'' @ rest"
    and X: "\<forall>c\<in>set X. is_word c" and Y: "\<forall>c\<in>set Y. is_word c"
    and n: "n = length (X @ ''.'' @ Y @ ''.node.clone()'')"
    unfolding rx_match_node2_iff by blast
  define K where "K = X @ ''.'' @ Y @ ''.node.clone''"
  have K: "\<forall>c\<in>set K. is_word c \<or> c = CHR ''.''"
    using X Y by (auto simp: K_def is_word_def)
  have eq': "u @ y = K @ ''()'' @ rest" and n': "n = length K + 2"
    using eq n by (simp_all add: K_def)
  have lu: "last u \<notin> set K" using K u by auto
  from eq' consider t where "u @ t = K" | t where "u = K @ t" "t @ y = ''()'' @ rest"
    by (auto simp: append_eq_append_conv2)
  then show False
  proof cases
    case 1
    then have "last u \<in> set K" using u(1) by (metis last_in_set set_append Un_iff)
    then show False using lu by simp
  next
    case 2
    have "length t < 2" using nle n' 2(1) by simp
    then consider "t = []" | a where "t = [a]"
      by (cases t; cases "tl t") auto
    then show False
    proof cases
      case 1
      then show False using 2(1) lu u(1) last_in_set by fastforce
    next
      case 2
      then have "y \<noteq> [] \<and> hd y = CHR '')''" using \<open>t @ y = ''()'' @ rest\<close> by (cases y) auto
      then show False using y by simp
    qed
  qed
qed

lemma re_sub_split_end:
  assumes loc: "rule_local r"
    and ends: "\<And>s n cs. rx_match r s = Some (n, cs) \<Longrightarrow> last (take n s) = CHR '')''"
    and y: "CHR '')'' \<notin> set y"
  shows "re_sub r t (x @ y) = re_sub r t x @ re_sub r t y"
proof (rule re_sub_split [OF loc])
  fix u n cs
  assume m: "rx_match r (u @ y) = Some (n, cs)"
  show "n \<le> length u"
  proof (rule ccontr)
    assume nle: "\<not> n \<le> length u"
    have n: "0 < n" "n \<le> length (u @ y)" using loc m unfolding rule_local_def by blast+
    define k where "k = n - length u"
    have k: "0 < k" "k \<le> length y" using nle n by (simp_all add: k_def)
    have "take n (u @ y) = u @ take k y" using nle by (simp add: k_def)
    moreover have "take k y \<noteq> []" using k by (cases y) auto
    ultimately have "last (take n (u @ y)) = last (take k y)" by simp
    moreover have "last (take k y) \<in> set y"
      using \<open>take k y \<noteq> []\<close> by (meson in_set_takeD last_in_set)
    ultimately show False using ends [OF m] y by simp
  qed
qed

lemma node1_ends:
  assumes "rx_match node1_rx s = Some (n, cs)"
  shows "last (take n s) = CHR '')''"
proof -
  from assms obtain X rest where s: "s = X @ ''.node.clone()'' @ rest"
    and n: "n = length (X @ ''.node.clone()'')"
    unfolding rx_match_node1_iff by blast
  have "take n s = X @ ''.node.clone()''"
    using s n by (intro take_length_append) simp_all
  then show ?thesis by simp
qed

lemma lookup_ends:
  assumes "rx_match lookup_rx s = Some (n, cs)"
  shows "last (take n s) = CHR '')''"
proof -
  from assms obtain Z f rest
    where s: "s = ''self.symbol_table.lookup(&'' @ Z @ ''.'' @ f @ ''.node)'' @ rest"
    and n: "n = length (''self.symbol_table.lookup(&'' @ Z @ ''.'' @ f @ ''.node)'')"
    unfolding rx_match_lookup_iff by blast
  have "take n s = ''self.symbol_table.lookup(&'' @ Z @ ''.'' @ f @ ''.node)''"
    using s n by (intro take_length_append) simp_all
  then show ?thesis by simp
qed

lemma after_context:
  assumes "CHR ''('' \<notin> set y" "CHR '')'' \<notin> set y"
  shows "re_sub lookup_rx lookup_repl (re_sub node1_rx node1_repl (p @ y)) =
     re_sub lookup_rx lookup_repl (re_sub node1_rx node1_repl p) @ y"
proof -
  have 1: "re_sub node1_rx node1_repl (p @ y) =
      re_sub node1_rx node1_repl p @ re_sub node1_rx node1_repl y"
    by (rule re_sub_split_end [OF node1_local _ assms(2)]) (rule node1_ends)
  have 2: "re_sub lookup_rx lookup_repl (q @ y) =
      re_sub lookup_rx lookup_repl q @ re_sub lookup_rx lookup_repl y" for q
    by (rule re_sub_split_end [OF lookup_local _ assms(2)]) (rule lookup_ends)
  show ?thesis
    unfolding 1 stringid_without_paren(2) [OF assms(1)] 2 stringid_without_paren(3) [OF assms(1)] ..
qed

subsection \<open>The literal stages as replacements\<close>

lemma struct_header_sub:
  "re_sub (Lit struct_header) [TLit struct_header_new] s =
     replace_all struct_header struct_header_new s"
  using re_sub_literal [of "Lit struct_header" struct_header "[]" "[TLit struct_header_new]" s]
  by (simp add: rx_match_Lit struct_header_def)

lemma struct_anchor_sub:
  "re_sub (Group 1 (Lit struct_anchor)) [TGrp 1, TLit struct_fields] s =
     replace_all struct_anchor (struct_anchor @ struct_fields) s"
  using re_sub_literal [of "Group 1 (Lit struct_anchor)" struct_anchor "[(1, struct_anchor)]"
      "[TGrp 1, TLit struct_fields]" s]
  by (simp add: rx_match_Group_Lit struct_anchor_def)

lemma impl_header_sub:
  "fix_impl_block s = replace_all impl_header impl_header_new s"
  using re_sub_literal [of "Lit impl_header" impl_header "[]" "[TLit impl_header_new]" s]
  by (simp add: rx_match_Lit impl_header_def fix_impl_block_def)

lemma add_interner_to_struct_alt:
  "add_interner_to_struct s =
     replace_all struct_anchor (struct_anchor @ struct_fields)
       (replace_all struct_header struct_header_new s)"
  unfolding add_interner_to_struct_def Let_def struct_header_sub struct_anchor_sub ..

lemma header_at_header:
  "replace_all struct_header struct_header_new (x @ struct_header @ y) =
     replace_all struct_header struct_header_new x @ struct_header_new @
     replace_all struct_header struct_header_new y"
proof -
  have "\<not> overhang (tl struct_header) (struct_header @ y)"
    by (simp add: struct_header_def)
  then have "replace_all struct_header struct_header_new (x @ struct_header @ y) =
     replace_all struct_header struct_header_new x @
     replace_all struct_header struct_header_new (struct_header @ y)"
    by (intro replace_all_split_overhang) (simp_all add: struct_header_def)
  then show ?thesis
    by (simp add: replace_all_hit struct_header_def)
qed

lemma replace_all_skip_short:
  assumes x: "x \<noteq> []" and len: "length x \<le> length l" and c: "last x \<notin> set l"
  shows "replace_all l r (x @ y) = x @ replace_all l r y"
proof (rule replace_all_skip)
  fix u :: string
  assume u: "u \<noteq> []" and su: "suffix u x"
  show "\<not> prefix l (u @ y)"
  proof
    assume p: "prefix l (u @ y)"
    have "length u \<le> length l" using su len suffix_length_le le_trans by blast
    then have "prefix u l" using p by (metis prefix_append prefix_length_prefix prefix_order.order_refl)
    then have "set u \<subseteq> set l" by (rule set_mono_prefix)
    moreover have "last u = last x" using su u by (auto simp: suffix_def)
    ultimately show False using c u last_in_set by fastforce
  qed
qed

lemma header_at_anchor:
  "replace_all struct_header struct_header_new (x @ struct_anchor @ y) =
     replace_all struct_header struct_header_new x @ struct_anchor @
     replace_all struct_header struct_header_new y"
proof -
  have "\<not> overhang (tl struct_header) (struct_anchor @ y)"
    by (simp add: struct_header_def struct_anchor_def)
  then have "replace_all struct_header struct_header_new (x @ struct_anchor @ y) =
     replace_all struct_header struct_header_new x @
     replace_all struct_header struct_header_new (struct_anchor @ y)"
    by (intro replace_all_split_overhang) (simp_all add: struct_header_def)
  moreover have "replace_all struct_header struct_header_new (struct_anchor @ y) =
     struct_anchor @ replace_all struct_header struct_header_new y"
    by (rule replace_all_skip_nohd) (simp_all add: struct_header_def struct_anchor_def)
  ultimately show ?thesis by simp
qed

lemma header_at_header_new:
  "replace_all struct_header struct_header_new (x @ struct_header_new @ y) =
     replace_all struct_header struct_header_new x @ struct_header_new @
     replace_all struct_header struct_header_new y"
proof -
  have "\<not> overhang (tl struct_header) (struct_header_new @ y)"
    by (simp add: struct_header_def struct_header_new_def)
  then have "replace_all struct_header struct_header_new (x @ struct_header_new @ y) =
     replace_all struct_header struct_header_new x @
     replace_all struct_header struct_header_new (struct_header_new @ y)"
    by (intro replace_all_split_overhang) (simp_all add: struct_header_def)
  moreover have "replace_all struct_header struct_header_new (struct_header_new @ y) =
     struct_header_new @ replace_all struct_header struct_header_new y"
    by (simp add: struct_header_def struct_header_new_def)
  ultimately show ?thesis by simp
qed

lemma header_at_fields:
  "replace_all struct_header struct_header_new (struct_fields @ y) =
     struct_fields @ replace_all struct_header struct_header_new y"
  by (rule replace_all_skip_nohd) (simp_all add: struct_header_def struct_fields_def)

lemma anchor_at_header_new:
  "replace_all struct_anchor r (x @ struct_header_new @ y) =
     replace_all struct_anchor r x @ struct_header_new @ replace_all struct_anchor r y"
proof -
  have "\<not> overhang (tl struct_anchor) (struct_header_new @ y)"
    by (simp add: struct_anchor_def struct_header_new_def)
  then have "replace_all struct_anchor r (x @ struct_header_new @ y) =
     replace_all struct_anchor r x @ replace_all struct_anchor r (struct_header_new @ y)"
    by (intro replace_all_split_overhang) (simp_all add: struct_anchor_def)
  moreover have "replace_all struct_anchor r (struct_header_new @ y) =
     struct_header_new @ replace_all struct_anchor r y"
    by (rule replace_all_skip_short) (simp_all add: struct_anchor_def struct_header_new_def)
  ultimately show ?thesis by simp
qed

lemma anchor_at_anchor:
  "replace_all struct_anchor r (x @ struct_anchor @ y) =
     replace_all struct_anchor r x @ r @ replace_all struct_anchor r y"
proof -
  have "\<not> overhang (tl struct_anchor) (struct_anchor @ y)"
    by (simp add: struct_anchor_def)
  then have "replace_all struct_anchor r (x @ struct_anchor @ y) =
     replace_all struct_anchor r x @ replace_all struct_anchor r (struct_anchor @ y)"
    by (intro replace_all_split_overhang) (simp_all add: struct_anchor_def)
  then show ?thesis
    by (simp add: replace_all_hit struct_anchor_def)
qed

lemma anchor_at_fields:
  "replace_all struct_anchor r (struct_fields @ y) = struct_fields @ replace_all struct_anchor r y"
  by (simp add: struct_anchor_def struct_fields_def)

lemma add_at_header:
  "add_interner_to_struct (x @ struct_header @ y) =
     add_interner_to_struct x @ struct_header_new @ add_interner_to_struct y"
  by (simp only: add_interner_to_struct_alt header_at_header anchor_at_header_new)

lemma add_at_anchor:
  "add_interner_to_struct (x @ struct_anchor @ y) =
     add_interner_to_struct x @ struct_anchor @ struct_fields @ add_interner_to_struct y"
  by (simp only: add_interner_to_struct_alt header_at_anchor anchor_at_anchor append_assoc)

lemma add_at_header_new:
  "add_interner_to_struct (x @ struct_header_new @ y) =
     add_interner_to_struct x @ struct_header_new @ add_interner_to_struct y"
  by (simp only: add_interner_to_struct_alt header_at_header_new anchor_at_header_new)

lemma add_at_fields:
  "add_interner_to_struct (struct_fields @ y) = struct_fields @ add_interner_to_struct y"
  by (simp only: add_interner_to_struct_alt header_at_fields anchor_at_fields)

lemma impl_at_header:
  "fix_impl_block (x @ impl_header @ y) = fix_impl_block x @ impl_header_new @ fix_impl_block y"
proof -
  have "\<not> overhang (tl impl_header) (impl_header @ y)"
    by (simp add: impl_header_def)
  then have "replace_all impl_header impl_header_new (x @ impl_header @ y) =
     replace_all impl_header impl_header_new x @
     replace_all impl_header impl_header_new (impl_header @ y)"
    by (intro replace_all_split_overhang) (simp_all add: impl_header_def)
  then show ?thesis
    by (simp add: impl_header_sub replace_all_hit impl_header_def)
qed

subsection \<open>The call-site rules\<close>

lemma call_ends:
  assumes "rx_match (call_rx head) s = Some (n, cs)"
  shows "last (take n s) = CHR '')''"
proof -
  from assms obtain g ws rest
    where s: "s = head @ g @ '','' @ ws @ ''handler.clone())'' @ rest"
    and n: "n = length (head @ g @ '','' @ ws @ ''handler.clone())'')"
    unfolding rx_match_call_iff by blast
  have "take n s = head @ g @ '','' @ ws @ ''handler.clone())''"
    using s n by (intro take_length_append) simp_all
  then show ?thesis by simp
qed

lemma call_has_comma:
  assumes "rx_match (call_rx head) s = Some (n, cs)"
  shows "CHR '','' \<in> set s"
proof -
  from assms obtain g ws rest
    where "s = head @ g @ '','' @ ws @ ''handler.clone())'' @ rest"
    unfolding rx_match_call_iff by blast
  then show ?thesis by simp
qed

lemma call_sub_without_comma:
  assumes "CHR '','' \<notin> set s"
  shows "re_sub (call_rx head) t s = s"
proof (rule re_sub_no_match)
  show "rx_search (call_rx head) s = None"
    unfolding rx_search_None_iff
  proof (intro allI impI)
    fix u
    assume u: "suffix u s"
    show "rx_match (call_rx head) u = None"
    proof (rule ccontr)
      assume "rx_match (call_rx head) u \<noteq> None"
      then obtain n cs where "rx_match (call_rx head) u = Some (n, cs)" by auto
      then have "CHR '','' \<in> set u" by (rule call_has_comma)
      then show False using u assms set_mono_suffix by blast
    qed
  qed
qed

lemma spaces_then_handler:
  assumes "\<forall>c\<in>set ws. is_space c"
  shows "dropWhile is_space (ws @ ''handler.clone())'' @ rest) = ''handler.clone())'' @ rest"
  using assms by (induction ws) (simp_all add: is_space_def)

lemma call_dead_comma:
  assumes m: "rx_match (call_rx head) (u @ r) = Some (n, cs)"
    and u: "u \<noteq> []" "last u = CHR '',''"
    and head: "CHR '','' \<notin> set head"
    and r: "\<not> prefix ''handler.clone())'' (dropWhile is_space r)"
  shows "n \<le> length u"
proof (rule ccontr)
  assume nle: "\<not> n \<le> length u"
  define hcs :: string where "hcs = ''handler.clone())''"
  from m obtain g ws rest where eq: "u @ r = head @ g @ '','' @ ws @ hcs @ rest"
    and g: "\<forall>c\<in>set g. not_comma c" and ws: "\<forall>c\<in>set ws. is_space c"
    and nn: "n = length (head @ g @ '','' @ ws @ hcs)"
    unfolding rx_match_call_iff hcs_def by blast
  have gc: "CHR '','' \<notin> set (head @ g)" using g head by (auto simp: not_comma_def)
  have wc: "CHR '','' \<notin> set (ws @ hcs)" using ws by (auto simp: is_space_def hcs_def)
  define M where "M = (head @ g) @ CHR '','' # (ws @ hcs)"
  have eq': "u @ r = M @ rest" using eq by (simp add: M_def)
  have "length u < length M" using nle nn by (simp add: M_def)
  then obtain w where w: "u @ w = M" "w @ rest = r" "w \<noteq> []"
    by (rule straddle_split [OF eq'])
  have u': "u = butlast u @ [CHR '','']" using u by (metis append_butlast_last_id)
  have "(head @ g) @ CHR '','' # (ws @ hcs) = butlast u @ CHR '','' # w"
    using w(1) u' unfolding M_def by (metis append.assoc append_Cons append_Nil)
  then have "w = ws @ hcs" using unique_occurrence [OF gc wc] by simp
  then have "r = ws @ ''handler.clone())'' @ rest" using w(2) by (simp add: hcs_def)
  then have "dropWhile is_space r = ''handler.clone())'' @ rest"
    using spaces_then_handler [OF ws] by simp
  then show False using r by simp
qed


lemma call_split_dead_comma:
  assumes head: "CHR '','' \<notin> set head"
    and r: "\<not> prefix ''handler.clone())'' (dropWhile is_space r)"
  shows "re_sub (call_rx head) t (x @ '','' @ r) =
     re_sub (call_rx head) t x @ '','' @ re_sub (call_rx head) t r"
proof -
  have 1: "re_sub (call_rx head) t ((x @ '','') @ r) =
      re_sub (call_rx head) t (x @ '','') @ re_sub (call_rx head) t r"
  proof (rule re_sub_split [OF call_local])
    fix u n cs
    assume u: "u \<noteq> []" "suffix u (x @ '','')"
      and m: "rx_match (call_rx head) (u @ r) = Some (n, cs)"
    from u(2) obtain zs where "x @ '','' = zs @ u" by (auto simp: suffix_def)
    then have "last (zs @ u) = CHR '',''" by (metis last_snoc append.assoc append_Cons append_Nil)
    then have "last u = CHR '',''" using u(1) by simp
    then show "n \<le> length u" using call_dead_comma [OF m u(1) _ head r] by simp
  qed
  have 2: "re_sub (call_rx head) t (x @ '','') =
      re_sub (call_rx head) t x @ re_sub (call_rx head) t '',''"
    by (rule re_sub_split_end [OF call_local]) (simp_all add: call_ends)
  have "rx_match (call_rx head) '','' = None"
  proof (rule ccontr)
    assume "rx_match (call_rx head) '','' \<noteq> None"
    then obtain n cs where "rx_match (call_rx head) '','' = Some (n, cs)" by auto
    then obtain g ws rest :: string
      where "'','' = head @ g @ '','' @ ws @ ''handler.clone())'' @ rest"
      unfolding rx_match_call_iff by blast
    then have "length '','' = length (head @ g @ '','' @ ws @ ''handler.clone())'' @ rest)"
      by (rule arg_cong)
    then show False by simp
  qed
  then have 3: "re_sub (call_rx head) t '','' = '',''"
    using rule_local_Nil [OF call_local, of head] by simp
  show ?thesis using 1 2 3 by simp
qed




lemma call_shape:
  "rx_match (call_rx head) s \<noteq> None \<longleftrightarrow>
     (\<exists>g ws rest. s = head @ g @ '','' @ ws @ ''handler.clone())'' @ rest \<and>
        g \<noteq> [] \<and> CHR '','' \<notin> set g \<and> (\<forall>c\<in>set ws. is_space c))"
proof -
  have "rx_match (call_rx head) s \<noteq> None \<longleftrightarrow> (\<exists>n cs. rx_match (call_rx head) s = Some (n, cs))"
    by auto
  also have "\<dots> \<longleftrightarrow> (\<exists>g ws rest. s = head @ g @ '','' @ ws @ ''handler.clone())'' @ rest \<and>
        g \<noteq> [] \<and> (\<forall>c\<in>set g. not_comma c) \<and> (\<forall>c\<in>set ws. is_space c))"
    unfolding rx_match_call_iff by blast
  also have "\<dots> \<longleftrightarrow> (\<exists>g ws rest. s = head @ g @ '','' @ ws @ ''handler.clone())'' @ rest \<and>
        g \<noteq> [] \<and> CHR '','' \<notin> set g \<and> (\<forall>c\<in>set ws. is_space c))"
    by (auto simp: not_comma_def)
  finally show ?thesis .
qed


subsection \<open>Occurrences of the call shapes\<close>

lemma open_callI:
  "suffix u s \<Longrightarrow> u \<noteq> [] \<Longrightarrow> prefix head u \<Longrightarrow> CHR '','' \<notin> set u \<Longrightarrow> open_call head s"
proof (induction s)
  case Nil
  then show ?case by simp
next
  case (Cons x xs)
  show ?case
  proof (cases "u = x # xs")
    case True
    then have "prefix head (x # xs) \<and> CHR '','' \<notin> set (x # xs)" using Cons.prems by blast
    then show ?thesis by (simp only: open_call.simps simp_thms)
  next
    case False
    then have "suffix u xs" using Cons.prems(1) by (simp add: suffix_Cons)
    then have "open_call head xs" using Cons by blast
    then show ?thesis by (simp only: open_call.simps simp_thms)
  qed
qed

lemma append_eq_cases2:
  assumes "u @ w = a @ b"
  obtains t where "u @ t = a" "w = t @ b" | t where "u = a @ t" "t \<noteq> []" "t @ w = b"
proof -
  from assms consider t where "u @ t = a" "w = t @ b" | t where "u = a @ t" "t @ w = b"
    by (auto simp: append_eq_append_conv2)
  then show thesis
  proof cases
    case 1
    then show ?thesis using that(1) by blast
  next
    case 2
    show ?thesis
    proof (cases "t = []")
      case True
      then show ?thesis using 2 that(1) [of "[]"] by simp
    next
      case False
      then show ?thesis using 2 that(2) by blast
    qed
  qed
qed

lemma overhangI: "t \<noteq> [] \<Longrightarrow> suffix t v \<Longrightarrow> prefix t y \<Longrightarrow> overhang v y"
proof (induction v)
  case Nil
  then show ?case by simp
next
  case (Cons a v)
  from Cons.prems(2) consider "t = a # v" | "suffix t v" by (auto simp: suffix_Cons)
  then show ?case
  proof cases
    case 1
    then show ?thesis using Cons.prems(3) by simp
  next
    case 2
    then show ?thesis using Cons by simp
  qed
qed

lemma call_straddle:
  assumes m: "rx_match (call_rx head) (u @ y) = Some (n, cs)" and n: "length u < n"
    and u: "u \<noteq> []"
    and head: "CHR '','' \<notin> set head" and oh: "\<not> overhang (tl head) y"
    and y: "y \<noteq> []" "hd y \<notin> set ''handler.clone())''" "\<not> is_space (hd y)" "hd y \<noteq> CHR '',''"
  shows "prefix head u \<and> CHR '','' \<notin> set u \<and>
     (\<exists>t ws rest. y = t @ '','' @ ws @ ''handler.clone())'' @ rest \<and>
        CHR '','' \<notin> set t \<and> (\<forall>c\<in>set ws. is_space c) \<and>
        n = length (u @ t @ '','' @ ws @ ''handler.clone())'') \<and>
        cs = [(1, drop (length head) (u @ t))])"
proof -
  define hcs :: string where "hcs = ''handler.clone())''"
  from m obtain g ws rest where eq: "u @ y = head @ g @ '','' @ ws @ hcs @ rest"
    and g: "\<forall>c\<in>set g. not_comma c" and ws: "\<forall>c\<in>set ws. is_space c"
    and nn: "n = length (head @ g @ '','' @ ws @ hcs)" and cs: "cs = [(1, g)]"
    unfolding rx_match_call_iff hcs_def by blast
  have gc: "CHR '','' \<notin> set g" using g by (auto simp: not_comma_def)
  define B where "B = CHR '','' # ws @ hcs"
  have eq': "u @ y = ((head @ g) @ B) @ rest" using eq by (simp add: B_def)
  have nn': "n = length ((head @ g) @ B)" using nn by (simp add: B_def)
  have "length u < length ((head @ g) @ B)" using n nn' by simp
  then obtain w where w: "u @ w = (head @ g) @ B" "w @ rest = y" "w \<noteq> []"
    by (rule straddle_split [OF eq'])
  have hw: "hd w = hd y" using w(2,3) by (cases w) auto
  from w(1) show ?thesis
  proof (cases rule: append_eq_cases2)
    case (1 t)
    have "set (u @ t) = set (head @ g)" using 1(1) by simp
    then have "CHR '','' \<notin> set (u @ t)" using head gc by simp
    then have uc: "CHR '','' \<notin> set u" and tc: "CHR '','' \<notin> set t" by simp_all
    from 1(1) have pu: "prefix head u"
    proof (cases rule: append_eq_cases2)
      case (1 t')
      show ?thesis
      proof (cases "t' = []")
        case True
        then show ?thesis using 1(1) by simp
      next
        case False
        have "tl head = tl u @ t'" using 1(1) u by (cases u) auto
        then have "suffix t' (tl head)" by (simp add: suffix_def)
        moreover have "y = t' @ (g @ B @ rest)" using w(2) \<open>w = t @ B\<close> 1(2) by simp
        then have "prefix t' y" by (rule prefixI)
        ultimately have "overhang (tl head) y" using False overhangI by blast
        then show ?thesis using oh by simp
      qed
    next
      case (2 t'')
      then show ?thesis by simp
    qed
    have yy: "y = t @ '','' @ ws @ ''handler.clone())'' @ rest"
      using w(2) 1(2) by (simp add: B_def hcs_def)
    have "n = length ((u @ t) @ B)" using nn' 1(1) by simp
    then have n2: "n = length (u @ t @ '','' @ ws @ ''handler.clone())'')"
      by (simp add: B_def hcs_def)
    have "g = drop (length head) (u @ t)" using 1(1) by simp
    then have "cs = [(1, drop (length head) (u @ t))]" using cs by simp
    then show ?thesis using pu uc tc ws yy n2 by blast
  next
    case (2 t)
    from 2(2,3) obtain t2 where "t2 @ w = ws @ hcs" by (cases t) (auto simp: B_def)
    then have "set w \<subseteq> set (ws @ hcs)" by (metis set_append Un_upper2)
    then have "hd w \<in> set ws \<union> set hcs" using w(3) hd_in_set by fastforce
    then have "is_space (hd y) \<or> hd y \<in> set ''handler.clone())''"
      using hw ws by (auto simp: hcs_def)
    then show ?thesis using y by blast
  qed
qed

lemma re_sub_reach:
  assumes loc: "rule_local r"
  shows "re_sub r t (x @ y) = re_sub r t x @ re_sub r t y \<or>
     (\<exists>x1 u n cs. x = x1 @ u \<and> u \<noteq> [] \<and> rx_match r (u @ y) = Some (n, cs) \<and> length u < n \<and>
        re_sub r t (x @ y) = re_sub r t x1 @ expand t cs @ re_sub r t (drop n (u @ y)))"
    (is "?P x")
proof (induction x rule: length_induct)
  case (1 x)
  show ?case
  proof (cases x)
    case Nil
    then show ?thesis using rule_local_Nil [OF loc] by simp
  next
    case (Cons a xs)
    show ?thesis
    proof (cases "rx_match r (x @ y)")
      case None
      then have nx: "rx_match r x = None"
        using rule_local_append [OF loc] by (cases "rx_match r x") auto
      have full: "re_sub r t (x @ y) = a # re_sub r t (xs @ y)" using None Cons by simp
      have "?P xs" using 1 Cons by simp
      then show ?thesis
      proof
        assume "re_sub r t (xs @ y) = re_sub r t xs @ re_sub r t y"
        then show ?thesis using full nx Cons by simp
      next
        assume "\<exists>x1 u n cs. xs = x1 @ u \<and> u \<noteq> [] \<and> rx_match r (u @ y) = Some (n, cs) \<and>
          length u < n \<and>
          re_sub r t (xs @ y) = re_sub r t x1 @ expand t cs @ re_sub r t (drop n (u @ y))"
        then obtain x1 u n cs where xs: "xs = x1 @ u" and u: "u \<noteq> []"
          and m: "rx_match r (u @ y) = Some (n, cs)" and n: "length u < n"
          and eq: "re_sub r t (xs @ y) = re_sub r t x1 @ expand t cs @ re_sub r t (drop n (u @ y))"
          by blast
        have "rx_match r ((a # x1) @ (u @ y)) = None" using None Cons xs by simp
        then have "rx_match r (a # x1) = None"
          using rule_local_append [OF loc, of "a # x1" _ _ "u @ y"]
          by (cases "rx_match r (a # x1)") auto
        then have "re_sub r t (a # x1) = a # re_sub r t x1" by simp
        then have "re_sub r t (x @ y) =
            re_sub r t (a # x1) @ expand t cs @ re_sub r t (drop n (u @ y))"
          using full eq by simp
        moreover have "x = (a # x1) @ u" using Cons xs by simp
        ultimately show ?thesis using u m n by blast
      qed
    next
      case (Some p)
      obtain n cs where p: "p = (n, cs)" by (cases p)
      have full: "re_sub r t (x @ y) = expand t cs @ re_sub r t (drop n (x @ y))"
        using re_sub_step [OF loc] Some p by simp
      show ?thesis
      proof (cases "n \<le> length x")
        case True
        have mx: "rx_match r x = Some (n, cs)"
          using rule_local_prefix [OF loc _ True] Some p by simp
        have n0: "0 < n" using loc mx unfolding rule_local_def by blast
        have x': "re_sub r t x = expand t cs @ re_sub r t (drop n x)"
          using re_sub_step [OF loc mx] .
        have full': "re_sub r t (x @ y) = expand t cs @ re_sub r t (drop n x @ y)"
          using full True by simp
        have "length (drop n x) < length x" using n0 Cons by simp
        then have "?P (drop n x)" using 1 by blast
        then show ?thesis
        proof
          assume "re_sub r t (drop n x @ y) = re_sub r t (drop n x) @ re_sub r t y"
          then show ?thesis using full' x' by simp
        next
          assume "\<exists>x1 u n' cs'. drop n x = x1 @ u \<and> u \<noteq> [] \<and>
            rx_match r (u @ y) = Some (n', cs') \<and> length u < n' \<and>
            re_sub r t (drop n x @ y) =
              re_sub r t x1 @ expand t cs' @ re_sub r t (drop n' (u @ y))"
          then obtain x1 u n' cs' where dx: "drop n x = x1 @ u" and u: "u \<noteq> []"
            and m: "rx_match r (u @ y) = Some (n', cs')" and n': "length u < n'"
            and eq: "re_sub r t (drop n x @ y) =
              re_sub r t x1 @ expand t cs' @ re_sub r t (drop n' (u @ y))"
            by blast
          have "rx_match r (take n x @ x1) = Some (n, cs)"
            using loc mx unfolding rule_local_def by blast
          then have "re_sub r t (take n x @ x1) =
              expand t cs @ re_sub r t (drop n (take n x @ x1))"
            by (rule re_sub_step [OF loc])
          moreover have "drop n (take n x @ x1) = x1" using True by simp
          ultimately have "re_sub r t (x @ y) =
              re_sub r t (take n x @ x1) @ expand t cs' @ re_sub r t (drop n' (u @ y))"
            using full' eq by simp
          moreover have "x = (take n x @ x1) @ u"
            using dx by (metis append.assoc append_take_drop_id)
          ultimately show ?thesis using u m n' by blast
        qed
      next
        case False
        have "re_sub r t [] = []" using rule_local_Nil [OF loc] by simp
        then have "re_sub r t (x @ y) = re_sub r t [] @ expand t cs @ re_sub r t (drop n (x @ y))"
          using full by simp
        moreover have "x = [] @ x" "x \<noteq> []" using Cons by simp_all
        moreover have "length x < n" using False by simp
        ultimately show ?thesis using Some p by blast
      qed
    qed
  qed
qed

lemma spaces_before_handler:
  assumes "\<forall>c\<in>set ws. is_space c" "\<forall>c\<in>set ws'. is_space c"
    and "ws @ ''handler.clone())'' @ rest = ws' @ ''handler.clone())'' @ rest'"
  shows "ws = ws' \<and> rest = rest'"
proof -
  have h: "''handler.clone())'' @ z = [] \<or> \<not> is_space (hd (''handler.clone())'' @ z))" for z
    by (simp add: is_space_def)
  have "takeWhile is_space (ws @ ''handler.clone())'' @ rest) = ws"
    using takeWhile_stop(1) [OF assms(1) h] .
  moreover have "takeWhile is_space (ws' @ ''handler.clone())'' @ rest') = ws'"
    using takeWhile_stop(1) [OF assms(2) h] .
  ultimately have "ws = ws'" using assms(3) by simp
  then show ?thesis using assms(3) by simp
qed

lemma call_occurrence:
  assumes t: "t = [TLit head, TGrp 1, TLit K]"
    and head: "CHR '','' \<notin> set head" "head \<noteq> []" "hd head \<notin> set ''handler.clone())''"
      "\<not> is_space (hd head)"
    and oh: "\<And>z. \<not> overhang (tl head) (head @ z)"
    and g: "g \<noteq> []" "CHR '','' \<notin> set g" and ws: "\<forall>c\<in>set ws. is_space c"
  shows "\<exists>A. re_sub (call_rx head) t (pre @ head @ g @ '','' @ ws @ ''handler.clone())'' @ post) =
       A @ head @ g @ K @ re_sub (call_rx head) t post \<and>
     (\<not> open_call head pre \<longrightarrow> A = re_sub (call_rx head) t pre)"
proof -
  define hcs :: string where "hcs = ''handler.clone())''"
  define M where "M = head @ g @ '','' @ ws @ hcs"
  define y where "y = M @ post"
  have yy: "y = head @ (g @ '','' @ ws @ hcs @ post)" by (simp add: y_def M_def)
  have gn: "\<forall>c\<in>set g. not_comma c" using g(2) by (auto simp: not_comma_def)
  have "rx_match (call_rx head) (M @ post) = Some (length M, [(1, g)])"
    unfolding rx_match_call_iff M_def hcs_def using g(1) gn ws by auto
  moreover have "M \<noteq> []" using head(2) by (simp add: M_def)
  ultimately have "re_sub (call_rx head) t (M @ post) =
      expand t [(1, g)] @ re_sub (call_rx head) t post"
    by (rule re_sub_hit)
  then have hit: "re_sub (call_rx head) t y = head @ g @ K @ re_sub (call_rx head) t post"
    by (simp add: t y_def)
  have y0: "y \<noteq> []" "hd y = hd head" using head(2) by (simp_all add: yy)
  have hc: "hd head \<noteq> CHR '',''" using head(1,2) by (metis hd_in_set)
  have goal: "\<exists>A. re_sub (call_rx head) t (pre @ y) =
       A @ head @ g @ K @ re_sub (call_rx head) t post \<and>
     (\<not> open_call head pre \<longrightarrow> A = re_sub (call_rx head) t pre)"
    using re_sub_reach [OF call_local, of head t pre y]
  proof
    assume "re_sub (call_rx head) t (pre @ y) =
      re_sub (call_rx head) t pre @ re_sub (call_rx head) t y"
    then show ?thesis using hit by simp
  next
    assume "\<exists>x1 u n cs. pre = x1 @ u \<and> u \<noteq> [] \<and>
      rx_match (call_rx head) (u @ y) = Some (n, cs) \<and> length u < n \<and>
      re_sub (call_rx head) t (pre @ y) =
        re_sub (call_rx head) t x1 @ expand t cs @ re_sub (call_rx head) t (drop n (u @ y))"
    then obtain x1 u n cs where pre: "pre = x1 @ u" and u: "u \<noteq> []"
      and m: "rx_match (call_rx head) (u @ y) = Some (n, cs)" and n: "length u < n"
      and eq: "re_sub (call_rx head) t (pre @ y) =
        re_sub (call_rx head) t x1 @ expand t cs @ re_sub (call_rx head) t (drop n (u @ y))"
      by blast
    have oh': "\<not> overhang (tl head) y" unfolding yy by (rule oh)
    have "prefix head u \<and> CHR '','' \<notin> set u \<and>
     (\<exists>t' ws' rest. y = t' @ '','' @ ws' @ ''handler.clone())'' @ rest \<and>
        CHR '','' \<notin> set t' \<and> (\<forall>c\<in>set ws'. is_space c) \<and>
        n = length (u @ t' @ '','' @ ws' @ ''handler.clone())'') \<and>
        cs = [(1, drop (length head) (u @ t'))])"
      using y0 head(3,4) hc by (intro call_straddle [OF m n u head(1) oh']) simp_all
    then obtain t' ws' rest where pu: "prefix head u" and uc: "CHR '','' \<notin> set u"
      and y': "y = t' @ '','' @ ws' @ hcs @ rest" and tc: "CHR '','' \<notin> set t'"
      and ws': "\<forall>c\<in>set ws'. is_space c"
      and nn: "n = length (u @ t' @ '','' @ ws' @ hcs)"
      and cs: "cs = [(1, drop (length head) (u @ t'))]"
      unfolding hcs_def by blast
    have hg: "CHR '','' \<notin> set (head @ g)" using head(1) g(2) by simp
    have "(head @ g) @ CHR '','' # (ws @ hcs @ post) = t' @ CHR '','' # (ws' @ hcs @ rest)"
      using y' by (simp add: y_def M_def)
    then have 1: "head @ g = t'" "ws @ hcs @ post = ws' @ hcs @ rest"
      using first_occurrence [OF hg tc] by simp_all
    have 2: "ws = ws'" "post = rest"
      using spaces_before_handler [OF ws ws' 1(2) [unfolded hcs_def]] by simp_all
    have "u @ y = (u @ t' @ '','' @ ws' @ hcs) @ post" using 1 2 by (simp add: y_def M_def)
    then have dr: "drop n (u @ y) = post" using nn by simp
    obtain u' where u': "u = head @ u'" using pu by (auto simp: prefix_def)
    have "drop (length head) (u @ t') = u' @ head @ g" using u' 1(1) by simp
    then have "expand t cs = u @ head @ g @ K" using cs u' by (simp add: t)
    then have r: "re_sub (call_rx head) t (pre @ y) =
        (re_sub (call_rx head) t x1 @ u) @ head @ g @ K @ re_sub (call_rx head) t post"
      using eq dr by simp
    have "suffix u pre" using pre by (simp add: suffix_def)
    then have "open_call head pre" using u pu uc by (rule open_callI)
    then show ?thesis using r by blast
  qed
  have "pre @ head @ g @ '','' @ ws @ ''handler.clone())'' @ post = pre @ y"
    by (simp add: y_def M_def hcs_def)
  then show ?thesis using goal by simp
qed

lemma call_skip_nohd:
  assumes "head \<noteq> []" "hd head \<notin> set x"
  shows "re_sub (call_rx head) t (x @ y) = x @ re_sub (call_rx head) t y"
proof (rule re_sub_skip)
  fix u :: string
  assume u: "u \<noteq> []" "suffix u x"
  then have "hd u \<in> set x" by (metis hd_in_set set_mono_suffix subsetD)
  then have "\<not> prefix head (u @ y)" using assms u(1) by (cases head; cases u) auto
  then show "rx_match (call_rx head) (u @ y) = None" by (rule call_None)
qed

lemma call_split_no_comma:
  assumes head: "CHR '','' \<notin> set head" and oh: "\<not> overhang (tl head) y"
    and y: "y \<noteq> []" "hd y \<notin> set ''handler.clone())''" "\<not> is_space (hd y)"
      "CHR '','' \<notin> set y"
  shows "re_sub (call_rx head) t (x @ y) = re_sub (call_rx head) t x @ y"
proof -
  have "re_sub (call_rx head) t (x @ y) = re_sub (call_rx head) t x @ re_sub (call_rx head) t y"
  proof (rule re_sub_split [OF call_local])
    fix u n cs
    assume u: "u \<noteq> []" and m: "rx_match (call_rx head) (u @ y) = Some (n, cs)"
    show "n \<le> length u"
    proof (rule ccontr)
      assume "\<not> n \<le> length u"
      then have n: "length u < n" by simp
      have yc: "hd y \<noteq> CHR '',''" using y(1,4) by (metis hd_in_set)
      have "\<exists>t' ws rest. y = t' @ '','' @ ws @ ''handler.clone())'' @ rest \<and>
        CHR '','' \<notin> set t' \<and> (\<forall>c\<in>set ws. is_space c) \<and>
        n = length (u @ t' @ '','' @ ws @ ''handler.clone())'') \<and>
        cs = [(1, drop (length head) (u @ t'))]"
        using call_straddle [OF m n u head oh y(1,2,3) yc] by blast
      then obtain t' z where "y = t' @ '','' @ z" by blast
      then have "CHR '','' \<in> set y" by simp
      then show False using y(4) by simp
    qed
  qed
  then show ?thesis using call_sub_without_comma [OF y(4)] by simp
qed

lemma parser_passes_lexer_call:
  assumes g: "CHR '','' \<notin> set g"
  shows "re_sub parser_rx parser_repl
       (X @ ''Lexer::new('' @ g @ '', handler.clone(), &self.interner)'' @ Z) =
     re_sub parser_rx parser_repl X @
       ''Lexer::new('' @ g @ '', handler.clone(), &self.interner)'' @
       re_sub parser_rx parser_repl Z"
proof -
  define P where "P = call_rx ''Parser::new(''"
  define r2 where "r2 = '' &self.interner)'' @ Z"
  define r1 where "r1 = '' handler.clone()'' @ '','' @ r2"
  define y where "y = ''Lexer::new('' @ g"
  have A: "re_sub P parser_repl ((X @ y) @ '','' @ r1) =
      re_sub P parser_repl (X @ y) @ '','' @ re_sub P parser_repl r1"
    unfolding P_def by (rule call_split_dead_comma) (simp_all add: r1_def is_space_def)
  have B: "re_sub P parser_repl ('' handler.clone()'' @ '','' @ r2) =
      re_sub P parser_repl '' handler.clone()'' @ '','' @ re_sub P parser_repl r2"
    unfolding P_def by (rule call_split_dead_comma) (simp_all add: r2_def is_space_def)
  have B': "re_sub P parser_repl '' handler.clone()'' = '' handler.clone()''"
    unfolding P_def by (rule call_sub_without_comma) simp
  have C: "re_sub P parser_repl ('' &self.interner)'' @ Z) =
      '' &self.interner)'' @ re_sub P parser_repl Z"
    unfolding P_def by (rule call_skip_nohd) simp_all
  have D: "re_sub P parser_repl (X @ y) = re_sub P parser_repl X @ y"
    unfolding P_def using g
    by (intro call_split_no_comma) (simp_all add: y_def is_space_def)
  have "re_sub P parser_repl ((X @ y) @ '','' @ r1) =
      re_sub P parser_repl X @ y @ '','' @ '' handler.clone()'' @ '','' @
        '' &self.interner)'' @ re_sub P parser_repl Z"
    using A B B' C D by (simp add: r1_def r2_def)
  then show ?thesis by (simp add: P_def parser_rx_def y_def r1_def r2_def)
qed

lemma lexer_passes_parser_call:
  assumes g: "CHR '','' \<notin> set g" and ws: "\<forall>c\<in>set ws. is_space c"
    and H: "\<not> open_call ''Lexer::new('' (pre @ ''Parser::new('' @ g)"
  shows "re_sub lexer_rx lexer_repl
       (pre @ ''Parser::new('' @ g @ '','' @ ws @ ''handler.clone())'' @ post) =
     re_sub lexer_rx lexer_repl pre @
       ''Parser::new('' @ g @ '','' @ ws @ ''handler.clone())'' @
       re_sub lexer_rx lexer_repl post"
proof -
  define L where "L = call_rx ''Lexer::new(''"
  define hp :: string where "hp = ''Parser::new('' @ g"
  define y2 where "y2 = '','' @ ws @ ''handler.clone())'' @ post"
  have hpc: "CHR '','' \<notin> set hp" using g by (simp add: hp_def)
  have hp0: "hp \<noteq> []" "hd hp = CHR ''P''" by (simp_all add: hp_def)
  have H': "\<not> open_call ''Lexer::new('' (pre @ hp)" using H by (simp add: hp_def)
  have no: "\<not> prefix ''Lexer::new('' u" if "suffix u (pre @ hp)" "u \<noteq> []" "CHR '','' \<notin> set u" for u
    using open_callI [OF that(1,2) _ that(3)] H' by blast
  have 1: "re_sub L lexer_repl (pre @ (hp @ y2)) =
      re_sub L lexer_repl pre @ re_sub L lexer_repl (hp @ y2)"
    unfolding L_def
  proof (rule re_sub_split [OF call_local])
    fix u n cs
    assume u: "u \<noteq> []" "suffix u pre"
      and m: "rx_match (call_rx ''Lexer::new('') (u @ hp @ y2) = Some (n, cs)"
    show "n \<le> length u"
    proof (rule ccontr)
      assume "\<not> n \<le> length u"
      then have n: "length u < n" by simp
      have "prefix ''Lexer::new('' u \<and> CHR '','' \<notin> set u \<and>
        (\<exists>t' ws rest. hp @ y2 = t' @ '','' @ ws @ ''handler.clone())'' @ rest \<and>
        CHR '','' \<notin> set t' \<and> (\<forall>c\<in>set ws. is_space c) \<and>
        n = length (u @ t' @ '','' @ ws @ ''handler.clone())'') \<and>
        cs = [(1, drop (length ''Lexer::new('') (u @ t'))])"
        by (rule call_straddle [OF m n u(1)]) (simp_all add: hp_def is_space_def)
      then have pu: "prefix ''Lexer::new('' u" and uc: "CHR '','' \<notin> set u" by blast+
      have "suffix (u @ hp) (pre @ hp)" using u(2) by simp
      moreover have "prefix ''Lexer::new('' (u @ hp)" using pu by (rule prefix_prefix)
      ultimately show False using no [of "u @ hp"] uc hpc u(1) by simp
    qed
  qed
  have 2: "re_sub L lexer_repl (hp @ y2) = hp @ re_sub L lexer_repl y2"
    unfolding L_def
  proof (rule re_sub_skip)
    fix u :: string
    assume u: "u \<noteq> []" "suffix u hp"
    have uc: "CHR '','' \<notin> set u" using u(2) hpc set_mono_suffix by blast
    show "rx_match (call_rx ''Lexer::new('') (u @ y2) = None"
    proof (rule ccontr)
      assume "rx_match (call_rx ''Lexer::new('') (u @ y2) \<noteq> None"
      then obtain g1 z where eq: "u @ y2 = ''Lexer::new('' @ g1 @ '','' @ z"
        and g1: "CHR '','' \<notin> set g1"
        unfolding call_shape by blast
      have c1: "CHR '','' \<notin> set (''Lexer::new('' @ g1)" using g1 by simp
      have "u @ CHR '','' # (ws @ ''handler.clone())'' @ post) =
          (''Lexer::new('' @ g1) @ CHR '','' # z"
        using eq by (simp add: y2_def)
      then have "u = ''Lexer::new('' @ g1" using first_occurrence [OF uc c1] by blast
      then have "prefix ''Lexer::new('' u" by (rule prefixI)
      moreover have "suffix u (pre @ hp)" using u(2) by (simp add: suffix_appendI)
      ultimately show False using no [of u] u(1) uc by simp
    qed
  qed
  have wsL: "CHR ''L'' \<notin> set ('','' @ ws @ ''handler.clone())'')"
    using ws by (auto simp: is_space_def)
  have 3: "re_sub L lexer_repl (('','' @ ws @ ''handler.clone())'') @ post) =
      ('','' @ ws @ ''handler.clone())'') @ re_sub L lexer_repl post"
    unfolding L_def using wsL by (intro call_skip_nohd) simp_all
  have "re_sub L lexer_repl (pre @ (hp @ y2)) =
      re_sub L lexer_repl pre @ hp @ '','' @ ws @ ''handler.clone())'' @ re_sub L lexer_repl post"
    using 1 2 3 by (simp add: y2_def)
  then show ?thesis by (simp add: L_def lexer_rx_def hp_def y2_def)
qed

lemma open_callD:
  "open_call head s \<Longrightarrow> \<exists>u. suffix u s \<and> u \<noteq> [] \<and> prefix head u \<and> CHR '','' \<notin> set u"
proof (induction s)
  case Nil
  then show ?case by simp
next
  case (Cons x xs)
  from Cons.prems consider "prefix head (x # xs) \<and> CHR '','' \<notin> set (x # xs)" | "open_call head xs"
    by (auto simp only: open_call.simps)
  then show ?case
  proof cases
    case 1
    then show ?thesis by (intro exI [of _ "x # xs"]) simp
  next
    case 2
    then obtain u where "suffix u xs" "u \<noteq> []" "prefix head u" "CHR '','' \<notin> set u"
      using Cons.IH by blast
    then show ?thesis by (intro exI [of _ u]) (simp add: suffix_Cons)
  qed
qed

lemma call_sub_keeps_comma:
  assumes t: "\<And>cs. CHR '','' \<in> set (expand t cs)"
  shows "CHR '','' \<notin> set (re_sub (call_rx head) t s) \<Longrightarrow> CHR '','' \<notin> set s"
proof (induction s rule: length_induct)
  case (1 s)
  show ?case
  proof (cases s)
    case Nil
    then show ?thesis by simp
  next
    case (Cons x xs)
    show ?thesis
    proof (cases "rx_match (call_rx head) s")
      case None
      then have "re_sub (call_rx head) t s = x # re_sub (call_rx head) t xs" using Cons by simp
      then show ?thesis using 1 Cons by simp
    next
      case (Some a)
      obtain n cs where a: "a = (n, cs)" by (cases a)
      have "re_sub (call_rx head) t s = expand t cs @ re_sub (call_rx head) t (drop n s)"
        using re_sub_step [OF call_local] Some a by simp
      then show ?thesis using 1(2) t [of cs] by simp
    qed
  qed
qed

lemma call_sub_suffix:
  assumes t: "t = [TLit head, TGrp 1, TLit (K1 @ CHR '','' # K2)]"
    and u: "u \<noteq> []" "hd u \<notin> set K2" "CHR '','' \<notin> set u"
  shows "suffix u (re_sub (call_rx head) t s) \<Longrightarrow> suffix u s"
proof (induction s rule: length_induct)
  case (1 s)
  have tc: "CHR '','' \<in> set (expand t cs)" for cs by (simp add: t)
  show ?case
  proof (cases s)
    case Nil
    then show ?thesis using 1(2) rule_local_Nil [OF call_local, of head] by simp
  next
    case (Cons x xs)
    show ?thesis
    proof (cases "rx_match (call_rx head) s")
      case None
      then have r: "re_sub (call_rx head) t s = x # re_sub (call_rx head) t xs"
        using Cons by simp
      from 1(2) consider "u = x # re_sub (call_rx head) t xs" | "suffix u (re_sub (call_rx head) t xs)"
        unfolding r by (auto simp: suffix_Cons)
      then show ?thesis
      proof cases
        case 1
        then have "CHR '','' \<notin> set (re_sub (call_rx head) t s)" using u(3) r by simp
        then have "CHR '','' \<notin> set s" by (rule call_sub_keeps_comma [OF tc])
        then have "re_sub (call_rx head) t s = s" by (rule call_sub_without_comma)
        then show ?thesis using 1 r by simp
      next
        case 2
        then have "suffix u xs" using 1(1) Cons by simp
        then show ?thesis using Cons by (simp add: suffix_Cons)
      qed
    next
      case (Some a)
      obtain n cs where a: "a = (n, cs)" by (cases a)
      have m: "rx_match (call_rx head) s = Some (n, cs)" using Some a by simp
      have n0: "0 < n" using call_local m unfolding rule_local_def by blast
      define R where "R = re_sub (call_rx head) t (drop n s)"
      obtain G where E: "expand t cs = (head @ G @ K1) @ CHR '','' # K2" by (simp add: t)
      have r: "re_sub (call_rx head) t s = expand t cs @ R"
        using re_sub_step [OF call_local m] by (simp add: R_def)
      have "suffix u R"
      proof (rule ccontr)
        assume nR: "\<not> suffix u R"
        then obtain u' where u': "u = u' @ R" "suffix u' (expand t cs)"
          using 1(2) unfolding r suffix_append by blast
        have "u' \<noteq> []" using u' nR by auto
        moreover have "CHR '','' \<notin> set u'" using u(3) u' by simp
        ultimately have "suffix u' K2"
          using u'(2) unfolding E suffix_append by (auto simp: suffix_Cons)
        then have "hd u' \<in> set K2" using \<open>u' \<noteq> []\<close> by (metis hd_in_set set_mono_suffix subsetD)
        then show False using u(2) u'(1) \<open>u' \<noteq> []\<close> by simp
      qed
      moreover have "length (drop n s) < length s" using n0 Cons by simp
      ultimately have "suffix u (drop n s)" using 1(1) unfolding R_def by blast
      then show ?thesis using suffix_drop suffix_order.trans by blast
    qed
  qed
qed

lemma open_parser_call_after_lexer:
  assumes "open_call ''Parser::new('' (re_sub lexer_rx lexer_repl s)"
  shows "open_call ''Parser::new('' s"
proof -
  from open_callD [OF assms] obtain u where u: "suffix u (re_sub lexer_rx lexer_repl s)"
    "u \<noteq> []" "prefix ''Parser::new('' u" "CHR '','' \<notin> set u" by blast
  have h: "hd u = CHR ''P''" using u(2,3) by (cases u) auto
  have "suffix u s"
  proof (rule call_sub_suffix [OF _ u(2) _ u(4) u(1) [unfolded lexer_rx_def]])
    show "lexer_repl = [TLit ''Lexer::new('', TGrp 1,
        TLit ('', handler.clone()'' @ CHR '','' # '' &self.interner)'')]"
      by (simp add: lexer_repl_def)
    show "hd u \<notin> set '' &self.interner)''" using h by simp
  qed
  then show ?thesis using u(2,3,4) by (rule open_callI)
qed

lemma lexer_call_rewritten:
  assumes g: "g \<noteq> []" "CHR '','' \<notin> set g" and ws: "\<forall>c\<in>set ws. is_space c"
  shows "\<exists>A. fix_lexer_parser_calls
         (pre @ ''Lexer::new('' @ g @ '','' @ ws @ ''handler.clone())'' @ post) =
       A @ ''Lexer::new('' @ g @ '', handler.clone(), &self.interner)'' @
         fix_lexer_parser_calls post \<and>
     (\<not> open_call ''Lexer::new('' pre \<longrightarrow> A = fix_lexer_parser_calls pre)"
proof -
  have "\<exists>A. re_sub (call_rx ''Lexer::new('') lexer_repl
         (pre @ ''Lexer::new('' @ g @ '','' @ ws @ ''handler.clone())'' @ post) =
       A @ ''Lexer::new('' @ g @ '', handler.clone(), &self.interner)'' @
         re_sub (call_rx ''Lexer::new('') lexer_repl post \<and>
     (\<not> open_call ''Lexer::new('' pre \<longrightarrow> A = re_sub (call_rx ''Lexer::new('') lexer_repl pre)"
    using g ws by (intro call_occurrence) (simp_all add: lexer_repl_def is_space_def)
  then obtain A where A: "re_sub lexer_rx lexer_repl
         (pre @ ''Lexer::new('' @ g @ '','' @ ws @ ''handler.clone())'' @ post) =
       A @ ''Lexer::new('' @ g @ '', handler.clone(), &self.interner)'' @
         re_sub lexer_rx lexer_repl post"
    and A': "\<not> open_call ''Lexer::new('' pre \<longrightarrow> A = re_sub lexer_rx lexer_repl pre"
    unfolding lexer_rx_def by blast
  have "fix_lexer_parser_calls
         (pre @ ''Lexer::new('' @ g @ '','' @ ws @ ''handler.clone())'' @ post) =
       re_sub parser_rx parser_repl A @
         ''Lexer::new('' @ g @ '', handler.clone(), &self.interner)'' @
         fix_lexer_parser_calls post"
    unfolding fix_lexer_parser_calls_def Let_def A
    by (rule parser_passes_lexer_call [OF g(2)])
  moreover have "\<not> open_call ''Lexer::new('' pre \<longrightarrow>
      re_sub parser_rx parser_repl A = fix_lexer_parser_calls pre"
    using A' by (simp add: fix_lexer_parser_calls_def)
  ultimately show ?thesis by blast
qed

lemma parser_call_rewritten:
  assumes g: "g \<noteq> []" "CHR '','' \<notin> set g" and ws: "\<forall>c\<in>set ws. is_space c"
    and H: "\<not> open_call ''Lexer::new('' (pre @ ''Parser::new('' @ g)"
  shows "\<exists>A. fix_lexer_parser_calls
         (pre @ ''Parser::new('' @ g @ '','' @ ws @ ''handler.clone())'' @ post) =
       A @ ''Parser::new('' @ g @ '', handler.clone(), &self.interner, &self.common)'' @
         fix_lexer_parser_calls post \<and>
     (\<not> open_call ''Parser::new('' pre \<longrightarrow> A = fix_lexer_parser_calls pre)"
proof -
  define X where "X = re_sub lexer_rx lexer_repl pre"
  define Z where "Z = re_sub lexer_rx lexer_repl post"
  have 1: "re_sub lexer_rx lexer_repl
       (pre @ ''Parser::new('' @ g @ '','' @ ws @ ''handler.clone())'' @ post) =
     X @ ''Parser::new('' @ g @ '','' @ ws @ ''handler.clone())'' @ Z"
    unfolding X_def Z_def by (rule lexer_passes_parser_call [OF g(2) ws H])
  have "\<exists>A. re_sub (call_rx ''Parser::new('') parser_repl
         (X @ ''Parser::new('' @ g @ '','' @ ws @ ''handler.clone())'' @ Z) =
       A @ ''Parser::new('' @ g @ '', handler.clone(), &self.interner, &self.common)'' @
         re_sub (call_rx ''Parser::new('') parser_repl Z \<and>
     (\<not> open_call ''Parser::new('' X \<longrightarrow> A = re_sub (call_rx ''Parser::new('') parser_repl X)"
    using g ws by (intro call_occurrence) (simp_all add: parser_repl_def is_space_def)
  then obtain A where A: "re_sub parser_rx parser_repl
         (X @ ''Parser::new('' @ g @ '','' @ ws @ ''handler.clone())'' @ Z) =
       A @ ''Parser::new('' @ g @ '', handler.clone(), &self.interner, &self.common)'' @
         re_sub parser_rx parser_repl Z"
    and A': "\<not> open_call ''Parser::new('' X \<longrightarrow> A = re_sub parser_rx parser_repl X"
    unfolding parser_rx_def by blast
  have "fix_lexer_parser_calls
         (pre @ ''Parser::new('' @ g @ '','' @ ws @ ''handler.clone())'' @ post) =
       A @ ''Parser::new('' @ g @ '', handler.clone(), &self.interner, &self.common)'' @
         fix_lexer_parser_calls post"
    unfolding fix_lexer_parser_calls_def Let_def 1 A by (simp add: Z_def)
  moreover have "\<not> open_call ''Parser::new('' pre \<longrightarrow> A = fix_lexer_parser_calls pre"
    using A' open_parser_call_after_lexer [of pre]
    by (auto simp: fix_lexer_parser_calls_def X_def)
  ultimately show ?thesis by blast
qed

subsection \<open>Stages without a match\<close>

text \<open>
  C3: a stage applied to a text in which none of its patterns matches anywhere returns
  the text unchanged; the stage functions are total, so there is no error to raise.
  This holds for each of the five stage functions.
\<close>

theorem stage_identity_without_match:
  "(rx_search (Lit struct_header) s = None \<and> rx_search (Group 1 (Lit struct_anchor)) s = None
      \<longrightarrow> add_interner_to_struct s = s) \<and>
   (rx_search old_sig s = None \<and> rx_search init_rx s = None \<longrightarrow> update_constructor s = s) \<and>
   (rx_search lexer_rx s = None \<and> rx_search parser_rx s = None
      \<longrightarrow> fix_lexer_parser_calls s = s) \<and>
   (rx_search node2_rx s = None \<and> rx_search node1_rx s = None \<and> rx_search lookup_rx s = None
      \<longrightarrow> fix_stringid_conversions s = s) \<and>
   (rx_search (Lit impl_header) s = None \<longrightarrow> fix_impl_block s = s)"
  by (simp add: add_interner_to_struct_def update_constructor_def fix_lexer_parser_calls_def
        fix_stringid_conversions_def fix_impl_block_def re_sub_no_match)

theorem stage_identity_without_match_witness:
  "rx_search (Lit struct_header) ''fn f(x: u8) {}'' = None \<and>
   rx_search (Group 1 (Lit struct_anchor)) ''fn f(x: u8) {}'' = None \<and>
   rx_search old_sig ''fn f(x: u8) {}'' = None \<and>
   rx_search init_rx ''fn f(x: u8) {}'' = None \<and>
   rx_search lexer_rx ''fn f(x: u8) {}'' = None \<and>
   rx_search parser_rx ''fn f(x: u8) {}'' = None \<and>
   rx_search node2_rx ''fn f(x: u8) {}'' = None \<and>
   rx_search node1_rx ''fn f(x: u8) {}'' = None \<and>
   rx_search lookup_rx ''fn f(x: u8) {}'' = None \<and>
   rx_search (Lit impl_header) ''fn f(x: u8) {}'' = None \<and>
   add_interner_to_struct ''fn f(x: u8) {}'' = ''fn f(x: u8) {}'' \<and>
   update_constructor ''fn f(x: u8) {}'' = ''fn f(x: u8) {}'' \<and>
   fix_lexer_parser_calls ''fn f(x: u8) {}'' = ''fn f(x: u8) {}'' \<and>
   fix_stringid_conversions ''fn f(x: u8) {}'' = ''fn f(x: u8) {}'' \<and>
   fix_impl_block ''fn f(x: u8) {}'' = ''fn f(x: u8) {}''"
proof -
  have h: "rx_search (Lit struct_header) ''fn f(x: u8) {}'' = None"
    "rx_search (Group 1 (Lit struct_anchor)) ''fn f(x: u8) {}'' = None"
    "rx_search old_sig ''fn f(x: u8) {}'' = None"
    "rx_search init_rx ''fn f(x: u8) {}'' = None"
    "rx_search lexer_rx ''fn f(x: u8) {}'' = None"
    "rx_search parser_rx ''fn f(x: u8) {}'' = None"
    "rx_search node2_rx ''fn f(x: u8) {}'' = None"
    "rx_search node1_rx ''fn f(x: u8) {}'' = None"
    "rx_search lookup_rx ''fn f(x: u8) {}'' = None"
    "rx_search (Lit impl_header) ''fn f(x: u8) {}'' = None"
    by (simp_all add: pattern_defs class_defs rx_match_def)
  show ?thesis
    using h stage_identity_without_match [of "''fn f(x: u8) {}''"] by simp
qed

section \<open>The struct and impl stages\<close>

text \<open>
  C6: the struct stage rewrites the header \<open>pub struct TypeChecker {\<close> to
  \<open>pub struct TypeChecker<'a> {\<close> at every occurrence, and the impl stage the header
  \<open>impl TypeChecker {\<close> to \<open>impl<'a> TypeChecker<'a> {\<close> at every occurrence: whatever
  stands before and after an occurrence, the occurrence comes out rewritten and the
  stage works on both sides independently.  In particular a text with the header twice
  has both occurrences rewritten in the same way, not just the first.
\<close>

theorem header_stages_rewrite_every_occurrence:
  "add_interner_to_struct (a @ ''pub struct TypeChecker {'' @ b) =
     add_interner_to_struct a @ ''pub struct TypeChecker<'a> {'' @ add_interner_to_struct b \<and>
   add_interner_to_struct (a @ ''pub struct TypeChecker {'' @ b @ ''pub struct TypeChecker {'' @ c) =
     add_interner_to_struct a @ ''pub struct TypeChecker<'a> {'' @ add_interner_to_struct b @
     ''pub struct TypeChecker<'a> {'' @ add_interner_to_struct c \<and>
   add_interner_to_struct
     ''pub struct TypeChecker {}\<newline>mod m { pub struct TypeChecker {} }'' =
     ''pub struct TypeChecker<'a> {}\<newline>mod m { pub struct TypeChecker<'a> {} }'' \<and>
   fix_impl_block (a @ ''impl TypeChecker {'' @ b) =
     fix_impl_block a @ ''impl<'a> TypeChecker<'a> {'' @ fix_impl_block b \<and>
   fix_impl_block (a @ ''impl TypeChecker {'' @ b @ ''impl TypeChecker {'' @ c) =
     fix_impl_block a @ ''impl<'a> TypeChecker<'a> {'' @ fix_impl_block b @
     ''impl<'a> TypeChecker<'a> {'' @ fix_impl_block c \<and>
   fix_impl_block ''impl TypeChecker {}\<newline>impl TypeChecker { fn f() {} }'' =
     ''impl<'a> TypeChecker<'a> {}\<newline>impl<'a> TypeChecker<'a> { fn f() {} }''"
proof -
  have 1: "add_interner_to_struct (x @ ''pub struct TypeChecker {'' @ y) =
      add_interner_to_struct x @ ''pub struct TypeChecker<'a> {'' @ add_interner_to_struct y" for x y
    using add_at_header [of x y] by (simp add: struct_header_def struct_header_new_def)
  have 2: "fix_impl_block (x @ ''impl TypeChecker {'' @ y) =
      fix_impl_block x @ ''impl<'a> TypeChecker<'a> {'' @ fix_impl_block y" for x y
    using impl_at_header [of x y] by (simp add: impl_header_def impl_header_new_def)
  have 3: "add_interner_to_struct
     ''pub struct TypeChecker {}\<newline>mod m { pub struct TypeChecker {} }'' =
     ''pub struct TypeChecker<'a> {}\<newline>mod m { pub struct TypeChecker<'a> {} }''"
    by (simp add: add_interner_to_struct_alt struct_header_def struct_header_new_def
          struct_anchor_def struct_fields_def)
  have 4: "fix_impl_block ''impl TypeChecker {}\<newline>impl TypeChecker { fn f() {} }'' =
     ''impl<'a> TypeChecker<'a> {}\<newline>impl<'a> TypeChecker<'a> { fn f() {} }''"
    by (simp add: impl_header_sub impl_header_def impl_header_new_def)
  show ?thesis
    by (simp only: 1 2 3 4 simp_thms)
qed

lemma add_interner_to_struct_id:
  assumes "\<not> sublist struct_header a" "\<not> sublist struct_anchor a"
  shows "add_interner_to_struct a = a"
  using assms by (simp add: add_interner_to_struct_alt replace_all_no_occurrence)

text \<open>
  C7, as the code has it: for a text with the struct header and, later, the anchor field
  line, the output has the lifetime marker \<open><'a>\<close> appended to that header and the two
  field lines (\<open>interner\<close>, \<open>common\<close>) right after that anchor line; the text \<open>a\<close>, \<open>b\<close>, \<open>c\<close>
  before, between and after them is processed by the stage on its own.  When \<open>a\<close>, \<open>b\<close>
  and \<open>c\<close> hold no further header or anchor line, exactly these two lines are new and
  all the other text is unchanged and in the same order.
\<close>

theorem struct_augmentation_frame:
  "add_interner_to_struct (a @ ''pub struct TypeChecker {'' @ b @ ''    diagnostic_handler: Arc<dyn DiagnosticHandler>,\<newline>'' @ c) =
     add_interner_to_struct a @ ''pub struct TypeChecker<'a> {'' @ add_interner_to_struct b @ ''    diagnostic_handler: Arc<dyn DiagnosticHandler>,\<newline>'' @
     ''    interner: &'a crate::string_interner::StringInterner,\<newline>'' @
     ''    common: &'a crate::string_interner::CommonIdentifiers,\<newline>'' @
     add_interner_to_struct c \<and>
   (\<not> sublist ''pub struct TypeChecker {'' a \<and> \<not> sublist ''    diagnostic_handler: Arc<dyn DiagnosticHandler>,\<newline>'' a \<and>
    \<not> sublist ''pub struct TypeChecker {'' b \<and> \<not> sublist ''    diagnostic_handler: Arc<dyn DiagnosticHandler>,\<newline>'' b \<and>
    \<not> sublist ''pub struct TypeChecker {'' c \<and> \<not> sublist ''    diagnostic_handler: Arc<dyn DiagnosticHandler>,\<newline>'' c \<longrightarrow>
    add_interner_to_struct (a @ ''pub struct TypeChecker {'' @ b @ ''    diagnostic_handler: Arc<dyn DiagnosticHandler>,\<newline>'' @ c) =
      a @ ''pub struct TypeChecker<'a> {'' @ b @ ''    diagnostic_handler: Arc<dyn DiagnosticHandler>,\<newline>'' @
      ''    interner: &'a crate::string_interner::StringInterner,\<newline>'' @
      ''    common: &'a crate::string_interner::CommonIdentifiers,\<newline>'' @
      c)"
proof -
  have 1: "add_interner_to_struct (a @ ''pub struct TypeChecker {'' @ b @ ''    diagnostic_handler: Arc<dyn DiagnosticHandler>,\<newline>'' @ c) =
     add_interner_to_struct a @ ''pub struct TypeChecker<'a> {'' @ add_interner_to_struct b @ ''    diagnostic_handler: Arc<dyn DiagnosticHandler>,\<newline>'' @
     ''    interner: &'a crate::string_interner::StringInterner,\<newline>'' @
     ''    common: &'a crate::string_interner::CommonIdentifiers,\<newline>'' @
     add_interner_to_struct c"
    using add_at_header [of a "b @ struct_anchor @ c"] add_at_anchor [of b c]
    by (simp add: struct_header_def struct_header_new_def struct_anchor_def struct_fields_def)
  have 2: "add_interner_to_struct x = x"
    if "\<not> sublist ''pub struct TypeChecker {'' x" "\<not> sublist ''    diagnostic_handler: Arc<dyn DiagnosticHandler>,\<newline>'' x" for x
    using that add_interner_to_struct_id [of x] by (simp add: struct_header_def struct_anchor_def)
  show ?thesis
    using 1 2 by simp
qed

theorem struct_augmentation_frame_witness:
  "add_interner_to_struct
     ''// checker\<newline>pub struct TypeChecker {\<newline>    table: u8,\<newline>    diagnostic_handler: Arc<dyn DiagnosticHandler>,\<newline>}\<newline>'' =
   ''// checker\<newline>pub struct TypeChecker<'a> {\<newline>    table: u8,\<newline>    diagnostic_handler: Arc<dyn DiagnosticHandler>,\<newline>    interner: &'a crate::string_interner::StringInterner,\<newline>    common: &'a crate::string_interner::CommonIdentifiers,\<newline>}\<newline>''"
proof -
  have h: "\<not> sublist ''pub struct TypeChecker {'' ''// checker\<newline>''"
    "\<not> sublist ''    diagnostic_handler: Arc<dyn DiagnosticHandler>,\<newline>'' ''// checker\<newline>''"
    "\<not> sublist ''pub struct TypeChecker {'' ''\<newline>    table: u8,\<newline>''"
    "\<not> sublist ''    diagnostic_handler: Arc<dyn DiagnosticHandler>,\<newline>'' ''\<newline>    table: u8,\<newline>''"
    "\<not> sublist ''pub struct TypeChecker {'' ''}\<newline>''"
    "\<not> sublist ''    diagnostic_handler: Arc<dyn DiagnosticHandler>,\<newline>'' ''}\<newline>''"
    by (simp_all add: sublist_Cons_right)
  show ?thesis
    using h
      struct_augmentation_frame [of "''// checker\<newline>''" "''\<newline>    table: u8,\<newline>''" "''}\<newline>''",
        THEN conjunct2]
    by simp
qed

text \<open>
  The claim as stated fails on a text with a second anchor line: a file with the target
  struct and a second struct that has the same field line.  Four lines are inserted,
  two of them into the second struct.
\<close>

theorem struct_augmentation_frame_counterexample:
  "add_interner_to_struct
     ''pub struct TypeChecker {\<newline>    diagnostic_handler: Arc<dyn DiagnosticHandler>,\<newline>}\<newline>pub struct Other {\<newline>    diagnostic_handler: Arc<dyn DiagnosticHandler>,\<newline>}\<newline>'' =
   ''pub struct TypeChecker<'a> {\<newline>    diagnostic_handler: Arc<dyn DiagnosticHandler>,\<newline>    interner: &'a crate::string_interner::StringInterner,\<newline>    common: &'a crate::string_interner::CommonIdentifiers,\<newline>}\<newline>pub struct Other {\<newline>    diagnostic_handler: Arc<dyn DiagnosticHandler>,\<newline>    interner: &'a crate::string_interner::StringInterner,\<newline>    common: &'a crate::string_interner::CommonIdentifiers,\<newline>}\<newline>''"
  by (simp add: add_interner_to_struct_alt struct_header_def struct_header_new_def
        struct_anchor_def struct_fields_def)

text \<open>
  C2, as the code has it: the stage is not idempotent, but only in its field rule.  A
  second application inserts the two field lines once more after the anchor line; the
  header, already marked, no longer matches the header pattern and keeps its single
  marker.
\<close>

theorem struct_augmentation_twice:
  "add_interner_to_struct (add_interner_to_struct (a @ struct_header @ b @ struct_anchor @ c)) =
     add_interner_to_struct (add_interner_to_struct a) @ struct_header_new @
     add_interner_to_struct (add_interner_to_struct b) @ struct_anchor @
     struct_fields @ struct_fields @
     add_interner_to_struct (add_interner_to_struct c)"
  by (simp only: add_at_header add_at_anchor add_at_header_new add_at_fields append_assoc)

text \<open>
  The claim as stated fails: on a struct with the header and the anchor line, the second
  application leaves the header with one marker (the marker is not appended again).
\<close>

theorem struct_augmentation_twice_counterexample:
  "add_interner_to_struct
     ''pub struct TypeChecker {\<newline>    diagnostic_handler: Arc<dyn DiagnosticHandler>,\<newline>}'' =
   ''pub struct TypeChecker<'a> {\<newline>    diagnostic_handler: Arc<dyn DiagnosticHandler>,\<newline>    interner: &'a crate::string_interner::StringInterner,\<newline>    common: &'a crate::string_interner::CommonIdentifiers,\<newline>}'' \<and>
   add_interner_to_struct
     ''pub struct TypeChecker<'a> {\<newline>    diagnostic_handler: Arc<dyn DiagnosticHandler>,\<newline>    interner: &'a crate::string_interner::StringInterner,\<newline>    common: &'a crate::string_interner::CommonIdentifiers,\<newline>}'' =
   ''pub struct TypeChecker<'a> {\<newline>    diagnostic_handler: Arc<dyn DiagnosticHandler>,\<newline>    interner: &'a crate::string_interner::StringInterner,\<newline>    common: &'a crate::string_interner::CommonIdentifiers,\<newline>    interner: &'a crate::string_interner::StringInterner,\<newline>    common: &'a crate::string_interner::CommonIdentifiers,\<newline>}''"
  by (simp add: add_interner_to_struct_alt struct_header_def struct_header_new_def
        struct_anchor_def struct_fields_def)

section \<open>The identifier resolution stage\<close>

lemma fix_stringid_conversions_alt:
  "fix_stringid_conversions s =
     re_sub lookup_rx lookup_repl (re_sub node1_rx node1_repl (re_sub node2_rx node2_repl s))"
  by (simp add: fix_stringid_conversions_def Let_def)

lemma node2_hit:
  assumes "X \<noteq> []" "\<forall>c\<in>set X. is_word c" "Y \<noteq> []" "\<forall>c\<in>set Y. is_word c"
  shows "re_sub node2_rx node2_repl (X @ ''.'' @ Y @ ''.node.clone()'' @ post) =
     ''self.interner.resolve('' @ X @ ''.'' @ Y @ ''.node).to_string()'' @
     re_sub node2_rx node2_repl post"
proof -
  have "rx_match node2_rx ((X @ ''.'' @ Y @ ''.node.clone()'') @ post) =
      Some (length (X @ ''.'' @ Y @ ''.node.clone()''), [(2, Y), (1, X)])"
    unfolding rx_match_node2_iff using assms by auto
  then have "re_sub node2_rx node2_repl ((X @ ''.'' @ Y @ ''.node.clone()'') @ post) =
      expand node2_repl [(2, Y), (1, X)] @ re_sub node2_rx node2_repl post"
    by (rule re_sub_hit) simp
  then show ?thesis by (simp add: node2_repl_def)
qed

lemma node1_split_resolve:
  "re_sub node1_rx t (x @ ''self.interner.resolve('' @ z) =
     re_sub node1_rx t x @ re_sub node1_rx t (''self.interner.resolve('' @ z)"
  by (rule re_sub_split [OF node1_local]) (rule node1_no_straddle_resolve)

lemma lookup_split_resolve:
  "re_sub lookup_rx t (x @ ''self.interner.resolve('' @ z) =
     re_sub lookup_rx t x @ re_sub lookup_rx t (''self.interner.resolve('' @ z)"
  by (rule re_sub_split [OF lookup_local]) (rule lookup_no_straddle_resolve)

lemma after_node2_hit:
  assumes X: "\<forall>c\<in>set X. is_word c" and Y: "\<forall>c\<in>set Y. is_word c"
  shows "re_sub lookup_rx lookup_repl (re_sub node1_rx node1_repl
       (p @ ''self.interner.resolve('' @ X @ ''.'' @ Y @ ''.node).to_string()'' @ z)) =
     re_sub lookup_rx lookup_repl (re_sub node1_rx node1_repl p) @
     ''self.interner.resolve('' @ X @ ''.'' @ Y @ ''.node).to_string()'' @
     re_sub lookup_rx lookup_repl (re_sub node1_rx node1_repl z)"
  by (simp only: node1_split_resolve node1_skip_replacement [OF X Y]
        lookup_split_resolve lookup_skip_replacement [OF X Y])

text \<open>
  C4: a two-level chain clone \<open>X.Y.node.clone()\<close> (\<open>X\<close>, \<open>Y\<close> non-empty words) that stands
  at the start of the text or after a character that is neither a word character nor a
  dot is rewritten as a whole to \<open>self.interner.resolve(X.Y.node).to_string()\<close>: rule (a)
  consumes it, and rules (b) and (c) leave the replacement alone; the text before and
  after is processed independently.
\<close>

theorem two_level_chain_resolved:
  assumes X: "X \<noteq> []" "\<forall>c\<in>set X. is_word c" and Y: "Y \<noteq> []" "\<forall>c\<in>set Y. is_word c"
    and pre: "pre = [] \<or> (\<not> is_word (last pre) \<and> last pre \<noteq> CHR ''.'')"
  shows "fix_stringid_conversions (pre @ X @ ''.'' @ Y @ ''.node.clone()'' @ post) =
     fix_stringid_conversions pre @
     ''self.interner.resolve('' @ X @ ''.'' @ Y @ ''.node).to_string()'' @
     fix_stringid_conversions post"
proof -
  have "re_sub node2_rx node2_repl (pre @ X @ ''.'' @ Y @ ''.node.clone()'' @ post) =
      re_sub node2_rx node2_repl pre @
      re_sub node2_rx node2_repl (X @ ''.'' @ Y @ ''.node.clone()'' @ post)"
  proof (rule re_sub_split [OF node2_local])
    fix u n cs
    assume u: "u \<noteq> []" "suffix u pre"
      and m: "rx_match node2_rx (u @ X @ ''.'' @ Y @ ''.node.clone()'' @ post) = Some (n, cs)"
    have "last u = last pre" using u by (auto simp: suffix_def)
    moreover have "pre \<noteq> []" using u by (auto simp: suffix_def)
    ultimately have lu: "\<not> is_word (last u)" "last u \<noteq> CHR ''.''" using pre by auto
    have "is_word (hd (X @ ''.'' @ Y @ ''.node.clone()'' @ post))"
      using X by (cases X) auto
    then show "n \<le> length u"
      using node2_no_straddle [OF m u(1) lu] X(1) by simp
  qed
  then have "re_sub node2_rx node2_repl (pre @ X @ ''.'' @ Y @ ''.node.clone()'' @ post) =
      re_sub node2_rx node2_repl pre @
      ''self.interner.resolve('' @ X @ ''.'' @ Y @ ''.node).to_string()'' @
      re_sub node2_rx node2_repl post"
    unfolding node2_hit [OF X Y] .
  then show ?thesis
    by (simp only: fix_stringid_conversions_alt after_node2_hit [OF X(2) Y(2)])
qed

theorem two_level_chain_resolved_witness:
  "fix_stringid_conversions ''Symbol::new(foo.bar.node.clone())'' =
     ''Symbol::new(self.interner.resolve(foo.bar.node).to_string())'' \<and>
   fix_stringid_conversions ''foo.bar.node.clone()'' =
     ''self.interner.resolve(foo.bar.node).to_string()''"
proof -
  have w: "''foo'' \<noteq> []" "\<forall>c\<in>set ''foo''. is_word c" "''bar'' \<noteq> []" "\<forall>c\<in>set ''bar''. is_word c"
    by (simp_all add: is_word_def)
  have p1: "''Symbol::new('' = [] \<or>
      (\<not> is_word (last ''Symbol::new('') \<and> last ''Symbol::new('' \<noteq> CHR ''.'')"
    by (simp add: is_word_def)
  have p2: "([] :: string) = [] \<or> (\<not> is_word (last []) \<and> last [] \<noteq> CHR ''.'')"
    by simp
  have i1: "fix_stringid_conversions ''Symbol::new('' = ''Symbol::new(''"
    and i2: "fix_stringid_conversions '')'' = '')''" and i3: "fix_stringid_conversions [] = []"
    by (simp_all add: fix_stringid_conversions_alt re_sub_miss node1_None node2_None lookup_None
          rule_local_Nil node1_local node2_local lookup_local is_word_def del: re_sub.simps(2))
  show ?thesis
    using two_level_chain_resolved [OF w p1, of "'')''"]
      two_level_chain_resolved [OF w p2, of "[]"] i1 i2 i3
    by simp
qed

lemma node2_chain:
  assumes pre: "\<forall>c\<in>set pre. is_word c \<or> c = CHR ''.''"
    and X: "X \<noteq> []" "\<forall>c\<in>set X. is_word c" and Y: "Y \<noteq> []" "\<forall>c\<in>set Y. is_word c"
  shows "re_sub node2_rx node2_repl (pre @ ''.'' @ X @ ''.'' @ Y @ ''.node.clone()'' @ post) =
      (pre @ ''.'') @ ''self.interner.resolve('' @ X @ ''.'' @ Y @ ''.node).to_string()'' @
      re_sub node2_rx node2_repl post"
proof -
  have "re_sub node2_rx node2_repl ((pre @ ''.'') @ X @ ''.'' @ Y @ ''.node.clone()'' @ post) =
      (pre @ ''.'') @ re_sub node2_rx node2_repl (X @ ''.'' @ Y @ ''.node.clone()'' @ post)"
  proof (rule re_sub_skip)
    fix u :: string
    assume u: "u \<noteq> []" "suffix u (pre @ ''.'')"
    from u(2) obtain zs where "pre @ ''.'' = zs @ u" by (auto simp: suffix_def)
    then have "last (pre @ ''.'') = last u" using u(1) by simp
    then have "last u = CHR ''.''" by simp
    moreover have "\<forall>c\<in>set u. is_word c \<or> c = CHR ''.''"
      using pre set_mono_suffix [OF u(2)] by auto
    ultimately show "rx_match node2_rx (u @ X @ ''.'' @ Y @ ''.node.clone()'' @ post) = None"
      using u(1) X(2) Y(2) by (intro node2_no_match_in_chain)
  qed
  then show ?thesis
    unfolding node2_hit [OF X Y] by (simp only: append_assoc)
qed

text \<open>
  C9: in a chain of three or more components ending in \<open>.node.clone()\<close> only the last two
  components before \<open>.node\<close> are wrapped.  The chain may stand anywhere: \<open>ctx\<close> is the text
  before it (empty, or ending in a character that is neither a word character nor a
  dot), \<open>pre\<close> the leading components of the chain (word characters and dots), \<open>X\<close> and
  \<open>Y\<close> the last two.  Then \<open>pre.X.Y.node.clone()\<close> becomes
  \<open>pre.self.interner.resolve(X.Y.node).to_string()\<close>: the resolver call is spliced into
  the chain; the text before and after is processed independently.
\<close>

theorem longer_chain_spliced:
  assumes ctx: "ctx = [] \<or> (\<not> is_word (last ctx) \<and> last ctx \<noteq> CHR ''.'')"
    and pre: "\<forall>c\<in>set pre. is_word c \<or> c = CHR ''.''"
    and X: "X \<noteq> []" "\<forall>c\<in>set X. is_word c" and Y: "Y \<noteq> []" "\<forall>c\<in>set Y. is_word c"
  shows "fix_stringid_conversions
       (ctx @ pre @ ''.'' @ X @ ''.'' @ Y @ ''.node.clone()'' @ post) =
     fix_stringid_conversions ctx @
     pre @ ''.'' @ ''self.interner.resolve('' @ X @ ''.'' @ Y @ ''.node).to_string()'' @
     fix_stringid_conversions post"
proof -
  define y where "y = pre @ ''.'' @ X @ ''.'' @ Y @ ''.node.clone()'' @ post"
  have hy: "y = [] \<or> hd y \<noteq> CHR '')''"
  proof (cases pre)
    case Nil
    then show ?thesis by (simp add: y_def)
  next
    case (Cons c cs)
    then have "is_word c \<or> c = CHR ''.''" using pre by simp
    then have "c \<noteq> CHR '')''" by (auto simp: is_word_def)
    then show ?thesis using Cons by (simp add: y_def)
  qed
  have "re_sub node2_rx node2_repl (ctx @ y) =
      re_sub node2_rx node2_repl ctx @ re_sub node2_rx node2_repl y"
  proof (rule re_sub_split [OF node2_local])
    fix u n cs
    assume u: "u \<noteq> []" "suffix u ctx" and m: "rx_match node2_rx (u @ y) = Some (n, cs)"
    from u(2) obtain zs where z: "ctx = zs @ u" by (auto simp: suffix_def)
    then have "last u = last ctx" using u(1) by simp
    moreover have "ctx \<noteq> []" using z u(1) by simp
    ultimately have "\<not> is_word (last u)" "last u \<noteq> CHR ''.''" using ctx by auto
    then show "n \<le> length u" using node2_no_straddle_dot [OF m u(1) _ _ hy] by blast
  qed
  then have a: "re_sub node2_rx node2_repl
       (ctx @ pre @ ''.'' @ X @ ''.'' @ Y @ ''.node.clone()'' @ post) =
     (re_sub node2_rx node2_repl ctx @ pre @ ''.'') @
     ''self.interner.resolve('' @ X @ ''.'' @ Y @ ''.node).to_string()'' @
     re_sub node2_rx node2_repl post"
    unfolding y_def node2_chain [OF pre X Y] by (simp only: append_assoc)
  have np: "CHR ''('' \<notin> set (pre @ ''.'')" "CHR '')'' \<notin> set (pre @ ''.'')"
    using pre by (auto simp: is_word_def)
  have b: "re_sub lookup_rx lookup_repl (re_sub node1_rx node1_repl
       (re_sub node2_rx node2_repl ctx @ pre @ ''.'')) =
     fix_stringid_conversions ctx @ pre @ ''.''"
    unfolding fix_stringid_conversions_alt by (rule after_context [OF np])
  show ?thesis
    unfolding fix_stringid_conversions_alt [of "ctx @ _"] a
      after_node2_hit [OF X(2) Y(2), of "re_sub node2_rx node2_repl ctx @ pre @ ''.''"
        "re_sub node2_rx node2_repl post"] b
    unfolding fix_stringid_conversions_alt by (simp only: append_assoc)
qed

theorem longer_chain_spliced_witness:
  "fix_stringid_conversions ''x = a.b.c.d.node.clone();'' =
     ''x = a.b.self.interner.resolve(c.d.node).to_string();'' \<and>
   fix_stringid_conversions ''a.b.c.node.clone()'' =
     ''a.self.interner.resolve(b.c.node).to_string()''"
proof -
  have c1: "''x = '' = [] \<or> (\<not> is_word (last ''x = '') \<and> last ''x = '' \<noteq> CHR ''.'')"
    and c2: "([] :: string) = [] \<or> (\<not> is_word (last []) \<and> last [] \<noteq> CHR ''.'')"
    by (simp_all add: is_word_def)
  have w1: "\<forall>c\<in>set ''a.b''. is_word c \<or> c = CHR ''.''"
    "''c'' \<noteq> []" "\<forall>c\<in>set ''c''. is_word c" "''d'' \<noteq> []" "\<forall>c\<in>set ''d''. is_word c"
    and w2: "\<forall>c\<in>set ''a''. is_word c \<or> c = CHR ''.''"
    "''b'' \<noteq> []" "\<forall>c\<in>set ''b''. is_word c" "''c'' \<noteq> []" "\<forall>c\<in>set ''c''. is_word c"
    by (simp_all add: is_word_def)
  have i: "fix_stringid_conversions ''x = '' = ''x = ''" "fix_stringid_conversions '';'' = '';''"
    "fix_stringid_conversions [] = []"
    by (simp_all add: fix_stringid_conversions_alt re_sub_miss node1_None node2_None lookup_None
          rule_local_Nil node1_local node2_local lookup_local is_word_def del: re_sub.simps(2))
  show ?thesis
    using longer_chain_spliced [OF c1 w1, of "'';''"] longer_chain_spliced [OF c2 w2, of "[]"] i
    by simp
qed




section \<open>The call-site stage\<close>

text \<open>
  C5, as the code has it: the call-site stage turns \<open>Lexer::new(tokens, handler.clone())\<close>
  into \<open>Lexer::new(tokens, handler.clone(), &self.interner)\<close> and
  \<open>Parser::new(tokens, handler.clone())\<close> into
  \<open>Parser::new(tokens, handler.clone(), &self.interner, &self.common)\<close>.  More generally,
  for a first argument \<open>g\<close> without a comma and white space \<open>ws\<close> after the comma: every
  occurrence of the \<open>Lexer::new\<close> shape, whatever stands before and after it, comes out
  with the one extra argument, followed by the stage's output for the text after it;
  every occurrence of the \<open>Parser::new\<close> shape comes out with the two extra arguments,
  provided no \<open>Lexer::new(\<close> stands before the comma of the call without a comma of its
  own in between (\<open>open_call\<close>).  When no such open call of the same function stands
  before the occurrence, the text before it is processed on its own.
\<close>

theorem call_occurrences_rewritten:
  "fix_lexer_parser_calls ''Lexer::new(tokens, handler.clone())'' =
     ''Lexer::new(tokens, handler.clone(), &self.interner)'' \<and>
   fix_lexer_parser_calls ''Parser::new(tokens, handler.clone())'' =
     ''Parser::new(tokens, handler.clone(), &self.interner, &self.common)'' \<and>
   (g \<noteq> [] \<and> CHR '','' \<notin> set g \<and> (\<forall>c\<in>set ws. is_space c) \<longrightarrow>
     (\<exists>A. fix_lexer_parser_calls
          (pre @ ''Lexer::new('' @ g @ '','' @ ws @ ''handler.clone())'' @ post) =
        A @ ''Lexer::new('' @ g @ '', handler.clone(), &self.interner)'' @
          fix_lexer_parser_calls post \<and>
        (\<not> open_call ''Lexer::new('' pre \<longrightarrow> A = fix_lexer_parser_calls pre)) \<and>
     (\<not> open_call ''Lexer::new('' (pre @ ''Parser::new('' @ g) \<longrightarrow>
       (\<exists>A. fix_lexer_parser_calls
            (pre @ ''Parser::new('' @ g @ '','' @ ws @ ''handler.clone())'' @ post) =
          A @ ''Parser::new('' @ g @ '', handler.clone(), &self.interner, &self.common)'' @
            fix_lexer_parser_calls post \<and>
          (\<not> open_call ''Parser::new('' pre \<longrightarrow> A = fix_lexer_parser_calls pre))))"
proof -
  have 1: "fix_lexer_parser_calls ''Lexer::new(tokens, handler.clone())'' =
     ''Lexer::new(tokens, handler.clone(), &self.interner)''"
    "fix_lexer_parser_calls ''Parser::new(tokens, handler.clone())'' =
     ''Parser::new(tokens, handler.clone(), &self.interner, &self.common)''"
    by (simp_all add: fix_lexer_parser_calls_def pattern_defs class_defs rx_match_def
          lexer_repl_def parser_repl_def)
  show ?thesis
    using 1 lexer_call_rewritten [of g ws pre post] parser_call_rewritten [of g ws pre post]
    by blast
qed

theorem call_occurrences_rewritten_witness:
  "fix_lexer_parser_calls ''let mut lexer = Lexer::new(&source,handler.clone());'' =
     ''let mut lexer = Lexer::new(&source, handler.clone(), &self.interner);'' \<and>
   fix_lexer_parser_calls ''f(Lexer::new(a, b), Parser::new(tokens,\<newline>  handler.clone()))'' =
     ''f(Lexer::new(a, b), Parser::new(tokens, handler.clone(), &self.interner, &self.common))''"
proof -
  have e: "fix_lexer_parser_calls ''let mut lexer = '' = ''let mut lexer = ''"
    "fix_lexer_parser_calls '';'' = '';''"
    "fix_lexer_parser_calls ''f(Lexer::new(a, b), '' = ''f(Lexer::new(a, b), ''"
    "fix_lexer_parser_calls '')'' = '')''"
    by (simp_all add: fix_lexer_parser_calls_def pattern_defs class_defs rx_match_def
          lexer_repl_def parser_repl_def)
  have h: "\<not> open_call ''Lexer::new('' ''let mut lexer = ''"
    "\<not> open_call ''Lexer::new('' (''f(Lexer::new(a, b), '' @ ''Parser::new('' @ ''tokens'')"
    "\<not> open_call ''Parser::new('' ''f(Lexer::new(a, b), ''"
    "\<forall>c\<in>set ''\<newline>  ''. is_space c"
    by (simp_all add: is_space_def)
  have 1: "fix_lexer_parser_calls
       (''let mut lexer = '' @ ''Lexer::new('' @ ''&source'' @ '','' @ [] @ ''handler.clone())'' @ '';'') =
     fix_lexer_parser_calls ''let mut lexer = '' @
       ''Lexer::new('' @ ''&source'' @ '', handler.clone(), &self.interner)'' @
       fix_lexer_parser_calls '';''"
    using h(1) call_occurrences_rewritten [of "''&source''" "[]" "''let mut lexer = ''" "'';''"]
    by auto
  have 2: "fix_lexer_parser_calls
       (''f(Lexer::new(a, b), '' @ ''Parser::new('' @ ''tokens'' @ '','' @ ''\<newline>  '' @
          ''handler.clone())'' @ '')'') =
     fix_lexer_parser_calls ''f(Lexer::new(a, b), '' @
       ''Parser::new('' @ ''tokens'' @ '', handler.clone(), &self.interner, &self.common)'' @
       fix_lexer_parser_calls '')''"
    using h(2,3,4)
      call_occurrences_rewritten [of "''tokens''" "''\<newline>  ''" "''f(Lexer::new(a, b), ''" "'')''"]
    by auto
  show ?thesis using 1 2 unfolding e by simp
qed

text \<open>
  The claim as stated fails for a \<open>Parser::new\<close> call that is the first argument of a
  \<open>Lexer::new\<close> call: the rule for \<open>Lexer::new\<close> runs first and takes the text up to the
  comma of the inner call as its own first argument, so the inner call receives the one
  extra argument of \<open>Lexer::new\<close> and the rule for \<open>Parser::new\<close> no longer matches it.
\<close>

theorem call_occurrences_rewritten_counterexample:
  "fix_lexer_parser_calls ''Lexer::new(Parser::new(tokens, handler.clone()), handler.clone())'' =
     ''Lexer::new(Parser::new(tokens, handler.clone(), &self.interner), handler.clone())''"
  by (simp add: fix_lexer_parser_calls_def pattern_defs class_defs rx_match_def
        lexer_repl_def parser_repl_def)




end
